theory Spec2Isabelle
  imports Complex_Main "HOL-Library.Word" "HOL-Library.Signed_Division"
begin

unbundle bit_operations_syntax

section \<open>Machine types of the mock\<close>

text \<open>
  The C++ sources use \<open>int\<close> (32 bits, two's complement, read with \<^const>\<open>sint\<close>),
  \<open>uint8_t\<close>, \<open>uint32_t\<close> and the DPI scalar \<open>svBit\<close> (one bit, here a \<open>bool\<close>).
  Signed overflow, a shift by at least the width of the operand and an index outside a
  vector or an open array are undefined behaviour in C++: a function that can run into
  one returns an \<open>option\<close>, and \<open>None\<close> stands for the undefined execution.
  Console output (\<open>printf\<close>, \<open>std::cout\<close>) is not modelled.
\<close>

type_synonym c_int = "32 word"
type_synonym uint8_t = "8 word"
type_synonym uint32_t = "32 word"
type_synonym svBit = bool
type_synonym HIF = c_int

definition TRUE :: c_int where
  "TRUE = 1"

definition FALSE :: c_int where
  "FALSE = 0"

text \<open>
  C division of two \<open>int\<close>s truncates towards zero. The code divides by the constants
  1000 and 8 only.
\<close>

definition c_div :: "c_int \<Rightarrow> c_int \<Rightarrow> c_int" where
  "c_div a b = word_of_int (sint a sdiv sint b)"

text \<open>\<open>(b >> pos) & 1\<close> on a byte, and \<open>b |= (1 << pos)\<close>.\<close>

definition bit_at :: "uint8_t \<Rightarrow> nat \<Rightarrow> svBit" where
  "bit_at b pos = (drop_bit pos b AND 1 \<noteq> 0)"

definition set_bit_at :: "uint8_t \<Rightarrow> nat \<Rightarrow> uint8_t" where
  "set_bit_at b pos = b OR push_bit pos 1"

section \<open>Utility functions: packed bytes and bit vectors\<close>

text \<open>
  \<open>bytes_to_bits\<close>: the loop \<open>for (int i = 0; i < bit_count; i++)\<close> runs over the
  indices \<open>0 ..< bit_count\<close> (none when \<open>bit_count \<le> 0\<close>) and pushes
  \<open>(bytes[i/8] >> (i % 8)) & 1\<close>. \<open>bytes[i/8]\<close> is unchecked: outside the vector it
  is undefined.
\<close>

fun bytes_to_bits_loop :: "uint8_t list \<Rightarrow> nat list \<Rightarrow> bool list \<Rightarrow> bool list option" where
  "bytes_to_bits_loop bytes [] bits = Some bits"
| "bytes_to_bits_loop bytes (i # is) bits =
     (if i div 8 < length bytes
      then bytes_to_bits_loop bytes is (bits @ [bit_at (bytes ! (i div 8)) (i mod 8)])
      else None)"

definition bytes_to_bits :: "uint8_t list \<Rightarrow> c_int \<Rightarrow> bool list option" where
  "bytes_to_bits bytes bit_count = bytes_to_bits_loop bytes [0..<nat (sint bit_count)] []"

text \<open>
  \<open>bits_to_bytes\<close>: a vector of \<open>(bits.size() + 7) / 8\<close> zero bytes, then for every
  index \<open>i < bits.size()\<close> with \<open>bits[i]\<close> set, \<open>bytes[i/8] |= (1 << (i % 8))\<close>.
  Both indices stay inside their vectors by the loop bound.
\<close>

fun bits_to_bytes_loop :: "bool list \<Rightarrow> nat list \<Rightarrow> uint8_t list \<Rightarrow> uint8_t list" where
  "bits_to_bytes_loop bits [] bytes = bytes"
| "bits_to_bytes_loop bits (i # is) bytes =
     bits_to_bytes_loop bits is
       (if bits ! i then bytes[i div 8 := set_bit_at (bytes ! (i div 8)) (i mod 8)] else bytes)"

definition bits_to_bytes :: "bool list \<Rightarrow> uint8_t list" where
  "bits_to_bytes bits =
     bits_to_bytes_loop bits [0..<length bits] (replicate ((length bits + 7) div 8) 0)"

section \<open>The simulated circuit behind the DPI boundary\<close>

text \<open>
  \<open>sv_jtag_step\<close>, \<open>sv_drive_jtag_pins\<close> and \<open>sv_get_tdo\<close> are tasks of the
  SystemVerilog test bench, imported over DPI. The C++ code only calls them, so the
  test bench is a parameter: any state type \<open>'o\<close> and any transition functions on it.
  Every call is also appended to a log, so that "which calls are issued, in which order"
  is a property of the final state. The test bench changes its own state only: it does
  not write to the registry or to the open arrays.
\<close>

record 'o sv_testbench =
  jtag_step :: "svBit \<Rightarrow> svBit \<Rightarrow> svBit \<Rightarrow> 'o \<Rightarrow> svBit \<times> 'o"
  drive_pins :: "svBit \<Rightarrow> svBit \<Rightarrow> svBit \<Rightarrow> 'o \<Rightarrow> 'o"
  get_tdo :: "'o \<Rightarrow> svBit \<times> 'o"

datatype sv_call =
  Sv_jtag_step svBit svBit svBit
| Sv_drive_jtag_pins svBit svBit svBit
| Sv_get_tdo

text \<open>
  \<open>JtagDevice\<close> with the values its constructor sets, the registry
  \<open>std::map<HIF, JtagDevice>\<close>, and the storage behind each \<open>svOpenArrayHandle\<close>
  (what \<open>svGetArrayPtr\<close> points to, as bytes). Two handles that are equal name the
  same storage.
\<close>

record JtagDevice =
  enabled :: bool
  clock_freq :: c_int
  tck_state :: bool
  tms_state :: bool
  tdi_state :: bool
  tdo_state :: bool
  device_id :: uint32_t
  timeout_ms :: c_int

definition JtagDevice_ctor :: JtagDevice where
  "JtagDevice_ctor =
     \<lparr>enabled = False, clock_freq = 1000000,
      tck_state = False, tms_state = False, tdi_state = False, tdo_state = False,
      device_id = 0x12345678, timeout_ms = 1000\<rparr>"

type_synonym svOpenArrayHandle = nat

record 'o world =
  device_registry :: "HIF \<rightharpoonup> JtagDevice"
  open_arrays :: "svOpenArrayHandle \<Rightarrow> uint8_t list"
  sv_calls :: "sv_call list"
  sv_state :: 'o

definition sv_jtag_step ::
  "'o sv_testbench \<Rightarrow> svBit \<Rightarrow> svBit \<Rightarrow> svBit \<Rightarrow> 'o world \<Rightarrow> svBit \<times> 'o world" where
  "sv_jtag_step tb tms tdi is_last w =
     (case jtag_step tb tms tdi is_last (sv_state w) of
        (tdo_out, s) \<Rightarrow>
          (tdo_out, w\<lparr>sv_calls := sv_calls w @ [Sv_jtag_step tms tdi is_last], sv_state := s\<rparr>))"

definition sv_drive_jtag_pins ::
  "'o sv_testbench \<Rightarrow> svBit \<Rightarrow> svBit \<Rightarrow> svBit \<Rightarrow> 'o world \<Rightarrow> 'o world" where
  "sv_drive_jtag_pins tb tck_val tms_val tdi_val w =
     w\<lparr>sv_calls := sv_calls w @ [Sv_drive_jtag_pins tck_val tms_val tdi_val],
       sv_state := drive_pins tb tck_val tms_val tdi_val (sv_state w)\<rparr>"

definition sv_get_tdo :: "'o sv_testbench \<Rightarrow> 'o world \<Rightarrow> svBit \<times> 'o world" where
  "sv_get_tdo tb w =
     (case get_tdo tb (sv_state w) of
        (tdo_val, s) \<Rightarrow> (tdo_val, w\<lparr>sv_calls := sv_calls w @ [Sv_get_tdo], sv_state := s\<rparr>))"

text \<open>
  What the test bench answers to a sequence of steps \<open>(tms, tdi, is_last)\<close> started in
  state \<open>s\<close>: the TDO of every step and the state it ends in. The theorems use it to
  name "the TDO captured on call \<open>i\<close>".
\<close>

fun sv_run ::
  "'o sv_testbench \<Rightarrow> (svBit \<times> svBit \<times> svBit) list \<Rightarrow> 'o \<Rightarrow> svBit list \<times> 'o" where
  "sv_run tb [] s = ([], s)"
| "sv_run tb ((tms, tdi, is_last) # cs) s =
     (case jtag_step tb tms tdi is_last s of
        (tdo_out, s1) \<Rightarrow> (case sv_run tb cs s1 of (tdos, s2) \<Rightarrow> (tdo_out # tdos, s2)))"

definition step_call :: "svBit \<times> svBit \<times> svBit \<Rightarrow> sv_call" where
  "step_call c = (case c of (tms, tdi, is_last) \<Rightarrow> Sv_jtag_step tms tdi is_last)"

section \<open>Failure simulation\<close>

text \<open>
  \<open>simulate_communication_error\<close> compares a number drawn from
  \<open>uniform_real_distribution(0.0, 1.0)\<close> on the global generator with the failure rate.
  The number drawn is an argument of the model, a real number as every \<open>double\<close> is.
  The default rate \<open>0.01\<close> is taken as 1/100; nothing proved here depends on its value.
\<close>

definition simulate_communication_error :: "real \<Rightarrow> real \<Rightarrow> bool" where
  "simulate_communication_error drawn failure_rate = (drawn < failure_rate)"

definition default_failure_rate :: real where
  "default_failure_rate = 1 / 100"

definition simulate_timeout :: "c_int \<Rightarrow> c_int \<Rightarrow> bool" where
  "simulate_timeout operation_time_ms tmo = (tmo <s operation_time_ms)"

section \<open>Direct pin access and TAP navigation\<close>

definition drive_jtag_pins ::
  "'o sv_testbench \<Rightarrow> svBit \<Rightarrow> svBit \<Rightarrow> svBit \<Rightarrow> 'o world \<Rightarrow> 'o world" where
  "drive_jtag_pins tb tck_val tms_val tdi_val w = sv_drive_jtag_pins tb tck_val tms_val tdi_val w"

definition read_jtag_pins :: "'o sv_testbench \<Rightarrow> 'o world \<Rightarrow> svBit \<times> 'o world" where
  "read_jtag_pins tb w = sv_get_tdo tb w"

text \<open>The loop \<open>for (int i = 0; i < 5; i++) sv_jtag_step(1, 0, 0, &tdo_bit)\<close>.\<close>

fun tap_reset_loop :: "'o sv_testbench \<Rightarrow> nat list \<Rightarrow> 'o world \<Rightarrow> 'o world" where
  "tap_reset_loop tb [] w = w"
| "tap_reset_loop tb (i # is) w = tap_reset_loop tb is (snd (sv_jtag_step tb True False False w))"

definition tap_reset :: "'o sv_testbench \<Rightarrow> 'o world \<Rightarrow> 'o world" where
  "tap_reset tb w = snd (sv_jtag_step tb False False False (tap_reset_loop tb [0..<5] w))"

text \<open>The loop \<open>for (bool tms_val : tms_sequence) sv_jtag_step(tms_val, 0, 0, &tdo_bit)\<close>.\<close>

fun tms_sequence_loop :: "'o sv_testbench \<Rightarrow> bool list \<Rightarrow> 'o world \<Rightarrow> 'o world" where
  "tms_sequence_loop tb [] w = w"
| "tms_sequence_loop tb (tms_val # rest) w =
     tms_sequence_loop tb rest (snd (sv_jtag_step tb tms_val False False w))"

definition navigate_to_shift_ir :: "'o sv_testbench \<Rightarrow> 'o world \<Rightarrow> 'o world" where
  "navigate_to_shift_ir tb w = tms_sequence_loop tb [True, True, False, False] w"

definition navigate_to_shift_dr :: "'o sv_testbench \<Rightarrow> 'o world \<Rightarrow> 'o world" where
  "navigate_to_shift_dr tb w = tms_sequence_loop tb [True, False, False] w"

definition navigate_to_shift_dr_with_idle :: "'o sv_testbench \<Rightarrow> 'o world \<Rightarrow> 'o world" where
  "navigate_to_shift_dr_with_idle tb w =
     tms_sequence_loop tb [True, False, False] (snd (sv_jtag_step tb False False False w))"

definition exit_to_run_test_idle :: "'o sv_testbench \<Rightarrow> 'o world \<Rightarrow> 'o world" where
  "exit_to_run_test_idle tb w =
     snd (sv_jtag_step tb False False False (snd (sv_jtag_step tb True False False w)))"

section \<open>The Digilent JTAG API\<close>

text \<open>
  Every function takes the world and returns it with its \<open>int\<close> result. An output
  parameter (\<open>int* freq_set\<close>) is passed as the value it points to and returned,
  changed or not. \<open>device_registry[hif]\<close> is the entry, default-constructed when absent.
\<close>

definition registry_at :: "(HIF \<rightharpoonup> JtagDevice) \<Rightarrow> HIF \<Rightarrow> JtagDevice" where
  "registry_at reg hif = (case reg hif of None \<Rightarrow> JtagDevice_ctor | Some d \<Rightarrow> d)"

definition djtg_enable :: "real \<Rightarrow> HIF \<Rightarrow> 'o world \<Rightarrow> c_int \<times> 'o world" where
  "djtg_enable drawn hif w =
     (if simulate_communication_error drawn default_failure_rate then (FALSE, w)
      else
        let reg1 = (device_registry w)(hif \<mapsto> JtagDevice_ctor);
            reg2 = reg1(hif \<mapsto> (registry_at reg1 hif)\<lparr>enabled := True\<rparr>)
        in (TRUE, w\<lparr>device_registry := reg2\<rparr>))"

definition djtg_disable :: "HIF \<Rightarrow> 'o world \<Rightarrow> c_int \<times> 'o world" where
  "djtg_disable hif w =
     (case device_registry w hif of
        None \<Rightarrow> (FALSE, w)
      | Some d \<Rightarrow>
          if \<not> enabled d then (FALSE, w)
          else (TRUE, w\<lparr>device_registry := (device_registry w)(hif \<mapsto> d\<lparr>enabled := False\<rparr>)\<rparr>))"

text \<open>
  \<open>djtg_put_tms_tdi_bits\<close>. \<open>cbit + 7\<close> is undefined when it overflows \<open>int\<close>. The
  first loop clears \<open>tdo_ptr[0 ..< byte_count]\<close>; the second reads bit \<open>bit_idx\<close> of the
  TMS and TDI arrays, steps the test bench and ors a captured 1 into the TDO array. The
  arrays are read from the store at each iteration, as the code reads them through
  their pointers.
\<close>

definition c_add :: "c_int \<Rightarrow> c_int \<Rightarrow> c_int option" where
  "c_add a b =
     (if - (2 ^ 31) \<le> sint a + sint b \<and> sint a + sint b < 2 ^ 31 then Some (a + b) else None)"

fun clear_loop :: "nat list \<Rightarrow> uint8_t list \<Rightarrow> uint8_t list option" where
  "clear_loop [] tdo_ptr = Some tdo_ptr"
| "clear_loop (i # is) tdo_ptr =
     (if i < length tdo_ptr then clear_loop is (tdo_ptr[i := 0]) else None)"

fun put_bits_loop ::
  "'o sv_testbench \<Rightarrow> svOpenArrayHandle \<Rightarrow> svOpenArrayHandle \<Rightarrow> svOpenArrayHandle \<Rightarrow>
   c_int \<Rightarrow> nat list \<Rightarrow> 'o world \<Rightarrow> 'o world option" where
  "put_bits_loop tb tms_data tdi_data tdo_data cbit [] w = Some w"
| "put_bits_loop tb tms_data tdi_data tdo_data cbit (bit_idx # rest) w =
     (let byte_idx = bit_idx div 8; bit_pos = bit_idx mod 8 in
      if byte_idx < length (open_arrays w tms_data) \<and> byte_idx < length (open_arrays w tdi_data)
      then
        let tms_bit = bit_at (open_arrays w tms_data ! byte_idx) bit_pos;
            tdi_bit = bit_at (open_arrays w tdi_data ! byte_idx) bit_pos;
            is_last = (int bit_idx = sint cbit - 1)
        in case sv_jtag_step tb tms_bit tdi_bit is_last w of
             (tdo_bit, w1) \<Rightarrow>
               if tdo_bit then
                 (if byte_idx < length (open_arrays w1 tdo_data)
                  then put_bits_loop tb tms_data tdi_data tdo_data cbit rest
                         (w1\<lparr>open_arrays := (open_arrays w1)
                               (tdo_data := (open_arrays w1 tdo_data)
                                  [byte_idx := set_bit_at (open_arrays w1 tdo_data ! byte_idx) bit_pos])\<rparr>)
                  else None)
               else put_bits_loop tb tms_data tdi_data tdo_data cbit rest w1
      else None)"

definition djtg_put_tms_tdi_bits ::
  "'o sv_testbench \<Rightarrow> HIF \<Rightarrow> svOpenArrayHandle \<Rightarrow> svOpenArrayHandle \<Rightarrow> svOpenArrayHandle \<Rightarrow>
   c_int \<Rightarrow> svBit \<Rightarrow> 'o world \<Rightarrow> (c_int \<times> 'o world) option" where
  "djtg_put_tms_tdi_bits tb hif tms_data tdi_data tdo_data cbit overlap w =
     (case device_registry w hif of
        None \<Rightarrow> Some (FALSE, w)
      | Some d \<Rightarrow>
          if \<not> enabled d then Some (FALSE, w)
          else
            let operation_time = c_div cbit 1000 in
            if simulate_timeout operation_time (timeout_ms d) then Some (FALSE, w)
            else
              (case c_add cbit 7 of
                 None \<Rightarrow> None
               | Some cbit7 \<Rightarrow>
                   let byte_count = c_div cbit7 8 in
                   (case clear_loop [0..<nat (sint byte_count)] (open_arrays w tdo_data) of
                      None \<Rightarrow> None
                    | Some cleared \<Rightarrow>
                        (case put_bits_loop tb tms_data tdi_data tdo_data cbit
                                [0..<nat (sint cbit)]
                                (w\<lparr>open_arrays := (open_arrays w)(tdo_data := cleared)\<rparr>) of
                           None \<Rightarrow> None
                         | Some w' \<Rightarrow> Some (TRUE, w')))))"

definition djtg_get_tms_tdi_tdo_bits ::
  "'o sv_testbench \<Rightarrow> HIF \<Rightarrow> svOpenArrayHandle \<Rightarrow> svOpenArrayHandle \<Rightarrow> svOpenArrayHandle \<Rightarrow>
   c_int \<Rightarrow> svBit \<Rightarrow> 'o world \<Rightarrow> (c_int \<times> 'o world) option" where
  "djtg_get_tms_tdi_tdo_bits tb hif tms_data tdi_data tdo_data cbit overlap w =
     djtg_put_tms_tdi_bits tb hif tms_data tdi_data tdo_data cbit overlap w"

definition djtg_set_tms_tdi_tck ::
  "'o sv_testbench \<Rightarrow> HIF \<Rightarrow> svBit \<Rightarrow> svBit \<Rightarrow> svBit \<Rightarrow> 'o world \<Rightarrow> c_int \<times> 'o world" where
  "djtg_set_tms_tdi_tck tb hif tms tdi tck w =
     (case device_registry w hif of
        None \<Rightarrow> (FALSE, w)
      | Some d \<Rightarrow>
          if \<not> enabled d then (FALSE, w)
          else
            let d' = d\<lparr>tms_state := tms, tdi_state := tdi, tck_state := tck\<rparr>;
                w1 = w\<lparr>device_registry := (device_registry w)(hif \<mapsto> d')\<rparr>
            in (TRUE, drive_jtag_pins tb tck tms tdi w1))"

text \<open>The four output parameters are \<open>(tms, tdi, tdo, tck)\<close>.\<close>

definition djtg_get_tms_tdi_tdo_tck ::
  "'o sv_testbench \<Rightarrow> HIF \<Rightarrow> svBit \<times> svBit \<times> svBit \<times> svBit \<Rightarrow> 'o world \<Rightarrow>
   c_int \<times> (svBit \<times> svBit \<times> svBit \<times> svBit) \<times> 'o world" where
  "djtg_get_tms_tdi_tdo_tck tb hif outs w =
     (case device_registry w hif of
        None \<Rightarrow> (FALSE, outs, w)
      | Some d \<Rightarrow>
          if \<not> enabled d then (FALSE, outs, w)
          else
            (case read_jtag_pins tb w of
               (tdo, w1) \<Rightarrow>
                 (TRUE, (tms_state d, tdi_state d, tdo, tck_state d),
                  w1\<lparr>device_registry := (device_registry w1)(hif \<mapsto> d\<lparr>tdo_state := tdo\<rparr>)\<rparr>)))"

definition djtg_set_speed :: "HIF \<Rightarrow> c_int \<Rightarrow> c_int \<Rightarrow> 'o world \<Rightarrow> c_int \<times> c_int \<times> 'o world" where
  "djtg_set_speed hif freq_req freq_set w =
     (case device_registry w hif of
        None \<Rightarrow> (FALSE, freq_set, w)
      | Some d \<Rightarrow>
          if \<not> enabled d then (FALSE, freq_set, w)
          else
            let max_freq = 50000000; min_freq = 1000;
                actual_freq =
                  (if max_freq <s freq_req then max_freq
                   else if freq_req <s min_freq then min_freq
                   else freq_req)
            in (TRUE, actual_freq,
                w\<lparr>device_registry := (device_registry w)(hif \<mapsto> d\<lparr>clock_freq := actual_freq\<rparr>)\<rparr>))"

definition djtg_get_speed :: "HIF \<Rightarrow> c_int \<Rightarrow> 'o world \<Rightarrow> c_int \<times> c_int \<times> 'o world" where
  "djtg_get_speed hif freq_cur w =
     (case device_registry w hif of
        None \<Rightarrow> (FALSE, freq_cur, w)
      | Some d \<Rightarrow>
          if \<not> enabled d then (FALSE, freq_cur, w)
          else (TRUE, clock_freq d, w))"

section \<open>MSB-first shifting of the test client\<close>

text \<open>
  \<open>shift_data_register_msb_first\<close> (its \<open>hif\<close> argument is not used). The shift amount
  \<open>bit_count - 1 - i\<close> is between 0 and \<open>bit_count - 1\<close> inside the loop; shifting a
  32-bit operand by 32 or more is undefined.
\<close>

fun msb_first_loop ::
  "'o sv_testbench \<Rightarrow> uint32_t \<Rightarrow> c_int \<Rightarrow> nat list \<Rightarrow> uint32_t \<Rightarrow> 'o world \<Rightarrow>
   (uint32_t \<times> 'o world) option" where
  "msb_first_loop tb data bit_count [] result w = Some (result, w)"
| "msb_first_loop tb data bit_count (i # is) result w =
     (let shift = nat (sint bit_count - 1 - int i) in
      if 32 \<le> shift then None
      else
        let bit_val = (drop_bit shift data AND 1 \<noteq> 0);
            is_last = (int i = sint bit_count - 1)
        in case sv_jtag_step tb is_last bit_val is_last w of
             (tdo_bit, w1) \<Rightarrow>
               msb_first_loop tb data bit_count is
                 (if tdo_bit then result OR push_bit shift 1 else result) w1)"

definition shift_data_register_msb_first ::
  "'o sv_testbench \<Rightarrow> HIF \<Rightarrow> uint32_t \<Rightarrow> c_int \<Rightarrow> 'o world \<Rightarrow> (uint32_t \<times> 'o world) option" where
  "shift_data_register_msb_first tb hif data bit_count w =
     msb_first_loop tb data bit_count [0..<nat (sint bit_count)] 0 w"

section \<open>Specification-side definitions and example states\<close>

text \<open>
  The clamping law in the specification's words: \<open>min(max(f, 1000), 50000000)\<close> on the
  signed value of the request.
\<close>

definition spec_clamp :: "c_int \<Rightarrow> c_int" where
  "spec_clamp f = word_of_int (min (max (sint f) 1000) 50000000)"

text \<open>
  The calls the specification describes for a bulk shift of \<open>n\<close> bits, as triples
  \<open>(tms, tdi, is_last)\<close>: call \<open>i\<close> carries bit \<open>i mod 8\<close> of byte \<open>i / 8\<close> of each input
  vector, and \<open>is_last\<close> on the last one. For an MSB-first shift of \<open>n\<close> bits of
  \<open>data\<close>: call \<open>i\<close> carries bit \<open>n - 1 - i\<close>, and TMS and \<open>is_last\<close> on the last one.
\<close>

definition spec_put_calls :: "uint8_t list \<Rightarrow> uint8_t list \<Rightarrow> nat \<Rightarrow> (svBit \<times> svBit \<times> svBit) list" where
  "spec_put_calls tms_bytes tdi_bytes n =
     map (\<lambda>i. (bit (tms_bytes ! (i div 8)) (i mod 8), bit (tdi_bytes ! (i div 8)) (i mod 8),
               Suc i = n)) [0..<n]"

definition spec_msb_calls :: "uint32_t \<Rightarrow> nat \<Rightarrow> (svBit \<times> svBit \<times> svBit) list" where
  "spec_msb_calls data n = map (\<lambda>i. (Suc i = n, bit data (n - 1 - i), Suc i = n)) [0..<n]"

text \<open>
  The guard every operation but \<open>djtg_enable\<close> starts with:
  \<open>it == device_registry.end() || !it->second.enabled\<close>.
\<close>

definition not_enabled :: "'o world \<Rightarrow> HIF \<Rightarrow> bool" where
  "not_enabled w hif = (case device_registry w hif of None \<Rightarrow> True | Some d \<Rightarrow> \<not> enabled d)"

text \<open>
  A loopback test bench (the TDO of a step is the TDI of that step) and small concrete
  states, on which the theorems are evaluated.
\<close>

definition loopback :: "unit sv_testbench" where
  "loopback =
     \<lparr>jtag_step = (\<lambda>tms tdi is_last s. (tdi, s)),
      drive_pins = (\<lambda>tck tms tdi s. s),
      get_tdo = (\<lambda>s. (False, s))\<rparr>"

definition example_world :: "unit world" where
  "example_world =
     \<lparr>device_registry = Map.empty,
      open_arrays = (\<lambda>h. if h = 2 then [0x81, 0x02] else if h = 3 then [0xA5, 0x03]
                         else if h = 4 then [0xFF, 0xFF, 0xFF] else []),
      sv_calls = [], sv_state = ()\<rparr>"

definition enabled_world :: "unit world" where
  "enabled_world = snd (djtg_enable (1 / 2) 1 example_world)"

section \<open>Properties of the codec\<close>

lemma bit_at_iff: "bit_at b pos = bit b pos"
  by (simp add: bit_at_def bit_iff_odd_drop_bit and_one_eq mod_2_eq_odd)

lemma bit_set_bit_at: "bit (set_bit_at b pos) k = (bit b k \<or> (k = pos \<and> k < 8))"
  by (auto simp add: set_bit_at_def bit_or_iff bit_exp_iff)

lemma sint_word_of_nat_small:
  "n < 2 ^ 31 \<Longrightarrow> nat (sint (word_of_nat n :: c_int)) = n"
  by (simp add: signed_of_nat signed_take_bit_int_eq_self)

lemma bytes_to_bits_loop_eq:
  "\<forall>i\<in>set is. i div 8 < length bytes \<Longrightarrow>
   bytes_to_bits_loop bytes is bits =
     Some (bits @ map (\<lambda>i. bit (bytes ! (i div 8)) (i mod 8)) is)"
  by (induction "is" arbitrary: bits) (simp_all add: bit_at_iff)

lemma bytes_to_bits_loop_None:
  "\<exists>i\<in>set is. length bytes \<le> i div 8 \<Longrightarrow> bytes_to_bits_loop bytes is bits = None"
  by (induction "is" arbitrary: bits) auto

lemma bytes_to_bits_eq:
  "bytes_to_bits bytes bit_count =
     (if (nat (sint bit_count) + 7) div 8 \<le> length bytes
      then Some (map (\<lambda>i. bit (bytes ! (i div 8)) (i mod 8)) [0..<nat (sint bit_count)])
      else None)"
proof (cases "(nat (sint bit_count) + 7) div 8 \<le> length bytes")
  case True
  then have "\<forall>i\<in>set [0..<nat (sint bit_count)]. i div 8 < length bytes"
    by auto
  then show ?thesis
    using True by (simp add: bytes_to_bits_def bytes_to_bits_loop_eq)
next
  case False
  then have "0 < nat (sint bit_count)" and "length bytes \<le> (nat (sint bit_count) - 1) div 8"
    by (auto simp add: Suc_le_eq)
  then have "\<exists>i\<in>set [0..<nat (sint bit_count)]. length bytes \<le> i div 8"
    by (auto intro!: bexI [of _ "nat (sint bit_count) - 1"])
  then show ?thesis
    using False by (simp add: bytes_to_bits_def bytes_to_bits_loop_None)
qed

lemma length_bits_to_bytes_loop: "length (bits_to_bytes_loop bits is bytes) = length bytes"
  by (induction "is" arbitrary: bytes) simp_all

lemma bit_bits_to_bytes_loop:
  "j < length bytes \<Longrightarrow> k < 8 \<Longrightarrow>
   bit (bits_to_bytes_loop bits is bytes ! j) k =
     (bit (bytes ! j) k \<or> (8 * j + k \<in> set is \<and> bits ! (8 * j + k)))"
proof (induction "is" arbitrary: bytes)
  case Nil
  then show ?case by simp
next
  case (Cons i "is")
  have pos: "(j = i div 8 \<and> k = i mod 8) = (8 * j + k = i)"
    using \<open>k < 8\<close> by auto
  show ?case
  proof (cases "bits ! i")
    case True
    let ?b = "bytes[i div 8 := set_bit_at (bytes ! (i div 8)) (i mod 8)]"
    have "bit (?b ! j) k = (bit (bytes ! j) k \<or> 8 * j + k = i)"
    proof (cases "j = i div 8")
      case True
      with Cons.prems pos show ?thesis by (simp add: bit_set_bit_at)
    next
      case False
      with Cons.prems pos show ?thesis by simp
    qed
    with True Cons.IH [of ?b] Cons.prems show ?thesis by auto
  next
    case False
    with Cons.IH [of bytes] Cons.prems show ?thesis by auto
  qed
qed

lemma length_bits_to_bytes: "length (bits_to_bytes bits) = (length bits + 7) div 8"
  by (simp add: bits_to_bytes_def length_bits_to_bytes_loop)

lemma bit_bits_to_bytes:
  "j < (length bits + 7) div 8 \<Longrightarrow> k < 8 \<Longrightarrow>
   bit (bits_to_bytes bits ! j) k = (8 * j + k < length bits \<and> bits ! (8 * j + k))"
  by (simp add: bits_to_bytes_def bit_bits_to_bytes_loop)

lemma bits_to_bytes_unpacked:
  "bits_to_bytes (map (\<lambda>i. bit (bytes ! (i div 8)) (i mod 8)) [0..<8 * length bytes]) = bytes"
proof (rule nth_equalityI)
  let ?bits = "map (\<lambda>i. bit (bytes ! (i div 8)) (i mod 8)) [0..<8 * length bytes]"
  show len: "length (bits_to_bytes ?bits) = length bytes"
    by (simp add: length_bits_to_bytes)
  fix j
  assume "j < length (bits_to_bytes ?bits)"
  with len have j: "j < length bytes" by simp
  show "bits_to_bytes ?bits ! j = bytes ! j"
  proof (rule bit_word_eqI)
    fix k
    assume "k < LENGTH(8)"
    then have k: "k < 8" by simp
    with j have in_range: "8 * j + k < 8 * length bytes" by simp
    have "bit (bits_to_bytes ?bits ! j) k = (8 * j + k < length ?bits \<and> ?bits ! (8 * j + k))"
      using j k by (intro bit_bits_to_bytes) simp_all
    also have "\<dots> = bit (bytes ! j) k"
      using in_range k by simp
    finally show "bit (bits_to_bytes ?bits ! j) k = bit (bytes ! j) k" .
  qed
qed

lemma unpack_bits_to_bytes:
  "map (\<lambda>i. bit (bits_to_bytes bits ! (i div 8)) (i mod 8)) [0..<length bits] = bits"
proof (rule nth_equalityI)
  show "length (map (\<lambda>i. bit (bits_to_bytes bits ! (i div 8)) (i mod 8)) [0..<length bits])
      = length bits"
    by simp
  fix i
  assume "i < length (map (\<lambda>i. bit (bits_to_bytes bits ! (i div 8)) (i mod 8)) [0..<length bits])"
  then have i: "i < length bits" by simp
  then have "i div 8 < (length bits + 7) div 8" by auto
  then have "bit (bits_to_bytes bits ! (i div 8)) (i mod 8)
      = (8 * (i div 8) + i mod 8 < length bits \<and> bits ! (8 * (i div 8) + i mod 8))"
    by (intro bit_bits_to_bytes) simp_all
  with i show "map (\<lambda>i. bit (bits_to_bytes bits ! (i div 8)) (i mod 8)) [0..<length bits] ! i
      = bits ! i"
    by simp
qed


text \<open>
  Claim C7. Packing the bits unpacked from a byte sequence gives the sequence back, when
  the bit count \<open>8 * len(bytes)\<close> is an \<open>int\<close>. \<open>bytes_to_bits\<close> returns, for every
  \<open>i\<close> below \<open>bit_count\<close>, bit \<open>i mod 8\<close> of byte \<open>i / 8\<close> and nothing else: it is
  defined as soon as the vector holds \<open>ceil(bit_count / 8)\<close> bytes, and two vectors that
  agree on the bits below \<open>bit_count\<close> give the same result. \<open>bits_to_bytes\<close> returns
  \<open>ceil(len(bits) / 8)\<close> bytes whose bit \<open>k\<close> of byte \<open>j\<close> is bit \<open>8 * j + k\<close> of the
  input, and zero from \<open>len(bits)\<close> on.
\<close>

theorem pack_unpack_roundtrip:
  fixes bytes bytes' :: "uint8_t list" and bit_count :: c_int and bits :: "bool list"
  shows
    "(8 * length bytes < 2 ^ 31 \<longrightarrow>
        map_option bits_to_bytes (bytes_to_bits bytes (word_of_nat (8 * length bytes)))
          = Some bytes)
     \<and> ((nat (sint bit_count) + 7) div 8 \<le> length bytes \<longrightarrow>
          bytes_to_bits bytes bit_count =
            Some (map (\<lambda>i. bit (bytes ! (i div 8)) (i mod 8)) [0..<nat (sint bit_count)]))
     \<and> ((nat (sint bit_count) + 7) div 8 \<le> length bytes
          \<and> (nat (sint bit_count) + 7) div 8 \<le> length bytes'
          \<and> (\<forall>i<nat (sint bit_count).
                bit (bytes ! (i div 8)) (i mod 8) = bit (bytes' ! (i div 8)) (i mod 8)) \<longrightarrow>
          bytes_to_bits bytes bit_count = bytes_to_bits bytes' bit_count)
     \<and> length (bits_to_bytes bits) = (length bits + 7) div 8
     \<and> (\<forall>j<(length bits + 7) div 8. \<forall>k<8.
          bit (bits_to_bytes bits ! j) k = (8 * j + k < length bits \<and> bits ! (8 * j + k)))"
proof (intro conjI impI allI)
  assume small: "8 * length bytes < 2 ^ 31"
  then have n: "nat (sint (word_of_nat (8 * length bytes) :: c_int)) = 8 * length bytes"
    by (rule sint_word_of_nat_small)
  have "(8 * length bytes + 7) div 8 \<le> length bytes"
    by simp
  with n show "map_option bits_to_bytes (bytes_to_bits bytes (word_of_nat (8 * length bytes)))
      = Some bytes"
    by (simp only: bytes_to_bits_eq if_True option.map bits_to_bytes_unpacked)
next
  assume "(nat (sint bit_count) + 7) div 8 \<le> length bytes"
  then show "bytes_to_bits bytes bit_count =
      Some (map (\<lambda>i. bit (bytes ! (i div 8)) (i mod 8)) [0..<nat (sint bit_count)])"
    by (simp add: bytes_to_bits_eq)
next
  assume "(nat (sint bit_count) + 7) div 8 \<le> length bytes
      \<and> (nat (sint bit_count) + 7) div 8 \<le> length bytes'
      \<and> (\<forall>i<nat (sint bit_count).
            bit (bytes ! (i div 8)) (i mod 8) = bit (bytes' ! (i div 8)) (i mod 8))"
  then show "bytes_to_bits bytes bit_count = bytes_to_bits bytes' bit_count"
    by (simp add: bytes_to_bits_eq)
next
  show "length (bits_to_bytes bits) = (length bits + 7) div 8"
    by (rule length_bits_to_bytes)
next
  fix j k :: nat
  assume "j < (length bits + 7) div 8" and "k < 8"
  then show "bit (bits_to_bytes bits ! j) k = (8 * j + k < length bits \<and> bits ! (8 * j + k))"
    by (rule bit_bits_to_bytes)
qed

theorem pack_unpack_roundtrip_witness:
  "8 * length [0xA5, 0x3C :: uint8_t] < (2 :: nat) ^ 31
   \<and> map_option bits_to_bytes (bytes_to_bits [0xA5, 0x3C] 16) = Some [0xA5, 0x3C]
   \<and> (nat (sint (11 :: c_int)) + 7) div 8 \<le> length [0xA5, 0x3C :: uint8_t]
   \<and> bytes_to_bits [0xA5, 0x3C] 11 =
       Some [True, False, True, False, False, True, False, True, False, False, True]
   \<and> bytes_to_bits [0xA5, 0x3C] 11 = bytes_to_bits [0xA5, 0xFC] 11
   \<and> length (bits_to_bytes [True, True, False, True, True, False, False, False, True, True]) = 2"
  using pack_unpack_roundtrip
    [of "[0xA5, 0x3C]" 11 "[0xA5, 0xFC]"
        "[True, True, False, True, True, False, False, False, True, True]"]
  by (simp add: bytes_to_bits_def bit_at_def upt_rec)

text \<open>
  Claim C10. Unpacking the packed bytes of a bit sequence with the sequence's own length
  gives the sequence back, for every length that is an \<open>int\<close>, a multiple of 8 or not.
\<close>

theorem unpack_pack_roundtrip:
  fixes bits :: "bool list"
  assumes "length bits < 2 ^ 31"
  shows "bytes_to_bits (bits_to_bytes bits) (word_of_nat (length bits)) = Some bits"
proof -
  have n: "nat (sint (word_of_nat (length bits) :: c_int)) = length bits"
    using assms by (rule sint_word_of_nat_small)
  show ?thesis
    by (simp only: bytes_to_bits_eq n length_bits_to_bytes order_refl if_True
        unpack_bits_to_bytes)
qed

theorem unpack_pack_roundtrip_witness:
  "length [True, True, False, True, True, False, False, False, True, True] < (2 :: nat) ^ 31
   \<and> bits_to_bytes [True, True, False, True, True, False, False, False, True, True] = [0x1B, 0x03]
   \<and> bytes_to_bits [0x1B, 0x03] 10 =
       Some [True, True, False, True, True, False, False, False, True, True]"
proof -
  have h: "length [True, True, False, True, True, False, False, False, True, True] < (2 :: nat) ^ 31"
    by simp
  have e: "bits_to_bytes [True, True, False, True, True, False, False, False, True, True]
      = [0x1B, 0x03]"
    by code_simp
  from unpack_pack_roundtrip [OF h] e h show ?thesis
    by simp
qed

section \<open>Signed arithmetic\<close>

lemma sint_c_int_range: "- (2 ^ 31) \<le> sint (x :: c_int) \<and> sint x < 2 ^ 31"
  using sint_ge [of x] sint_lt [of x] by simp

lemma sint_word_of_int_c_int:
  "- (2 ^ 31) \<le> k \<Longrightarrow> k < 2 ^ 31 \<Longrightarrow> sint (word_of_int k :: c_int) = k"
  by (simp add: signed_of_int signed_take_bit_int_eq_self)

lemma int_div_le_self: "0 \<le> (a :: int) \<Longrightarrow> 0 < b \<Longrightarrow> a div b \<le> a"
  using zdiv_mono2 [of a 1 b] by simp

lemma sdiv_pos_bounds:
  fixes k l :: int
  assumes "0 < l"
  shows "- \<bar>k\<bar> \<le> k sdiv l \<and> k sdiv l \<le> \<bar>k\<bar>"
proof -
  have "\<bar>k\<bar> div l \<le> \<bar>k\<bar>"
    using assms by (simp add: int_div_le_self)
  moreover have "0 \<le> \<bar>k\<bar> div l"
    using assms by (simp add: pos_imp_zdiv_nonneg_iff)
  ultimately show ?thesis
    using assms by (auto simp add: signed_divide_int_def sgn_if)
qed

lemma sint_c_div:
  assumes "0 < sint b"
  shows "sint (c_div a b) = sint a sdiv sint b"
proof -
  have "- \<bar>sint a\<bar> \<le> sint a sdiv sint b \<and> sint a sdiv sint b \<le> \<bar>sint a\<bar>"
    using assms by (rule sdiv_pos_bounds)
  moreover have "\<bar>sint a\<bar> \<le> 2 ^ 31"
    using sint_c_int_range [of a] by auto
  moreover have "sint a sdiv sint b < 2 ^ 31"
  proof (cases "0 \<le> sint a")
    case True
    then have "sint a sdiv sint b \<le> sint a"
      using assms by (simp add: signed_divide_int_def sgn_if int_div_le_self)
    then show ?thesis using sint_c_int_range [of a] by linarith
  next
    case False
    then have "sint a sdiv sint b \<le> 0"
      using assms by (simp add: signed_divide_int_def sgn_if pos_imp_zdiv_nonneg_iff)
    then show ?thesis by simp
  qed
  ultimately show ?thesis
    unfolding c_div_def by (intro sint_word_of_int_c_int) linarith+
qed

lemma simulate_timeout_iff:
  "simulate_timeout (c_div cbit 1000) tmo = (sint tmo < sint cbit sdiv 1000)"
  by (simp add: simulate_timeout_def word_sless_alt sint_c_div)

lemma TRUE_neq_FALSE: "TRUE \<noteq> FALSE"
  by (simp add: TRUE_def FALSE_def)

lemma set_speed_actual:
  "(if 50000000 <s freq_req then 50000000 else if freq_req <s 1000 then 1000 else freq_req)
     = spec_clamp freq_req"
  by (simp add: spec_clamp_def word_sless_alt min_def max_def)

section \<open>The device registry\<close>

lemma enabled_world_entry:
  "device_registry enabled_world 1 = Some (JtagDevice_ctor\<lparr>enabled := True\<rparr>)"
  by (simp add: enabled_world_def example_world_def djtg_enable_def
      simulate_communication_error_def default_failure_rate_def registry_at_def)

lemma example_world_not_enabled: "not_enabled example_world 1"
  by (simp add: not_enabled_def example_world_def)

lemma sv_jtag_step_eq:
  "sv_jtag_step tb tms tdi is_last w =
     (fst (jtag_step tb tms tdi is_last (sv_state w)),
      w\<lparr>sv_calls := sv_calls w @ [Sv_jtag_step tms tdi is_last],
        sv_state := snd (jtag_step tb tms tdi is_last (sv_state w))\<rparr>)"
  by (simp add: sv_jtag_step_def split: prod.splits)

lemma enabled_world_arrays:
  "open_arrays enabled_world 2 = [0x81, 0x02]"
  "open_arrays enabled_world 3 = [0xA5, 0x03]"
  "open_arrays enabled_world 4 = [0xFF, 0xFF, 0xFF]"
  "sv_calls enabled_world = []"
  by (simp_all add: enabled_world_def example_world_def djtg_enable_def
      simulate_communication_error_def default_failure_rate_def)

lemma put_example_true:
  "map_option fst (djtg_put_tms_tdi_bits loopback 1 2 3 4 10 False enabled_world) = Some TRUE"
  by (simp add: djtg_put_tms_tdi_bits_def enabled_world_entry enabled_world_arrays
      simulate_timeout_def word_sless_alt JtagDevice_ctor_def signed_divide_int_def c_add_def
      c_div_def upt_rec sv_jtag_step_eq loopback_def bit_at_iff Let_def)

text \<open>
  Claim C3. On an enabled handle \<open>djtg_set_speed\<close> returns \<open>TRUE\<close>, writes
  \<open>min(max(f, 1000), 50000000)\<close> to \<open>*freq_set\<close> and stores it as the clock frequency of
  the handle (nothing else changes); \<open>djtg_get_speed\<close> called next returns \<open>TRUE\<close> and
  that same value. A request of 100000000 gives 50000000, of 10 gives 1000, and of
  2000000 gives 2000000.
\<close>

theorem set_speed_clamps:
  assumes "device_registry w hif = Some d" and "enabled d"
  shows
    "djtg_set_speed hif freq_req freq_set w =
       (TRUE, spec_clamp freq_req,
        w\<lparr>device_registry := (device_registry w)(hif \<mapsto> d\<lparr>clock_freq := spec_clamp freq_req\<rparr>)\<rparr>)
     \<and> djtg_get_speed hif freq_cur (snd (snd (djtg_set_speed hif freq_req freq_set w))) =
         (TRUE, spec_clamp freq_req, snd (snd (djtg_set_speed hif freq_req freq_set w)))
     \<and> sint (spec_clamp freq_req) = min (max (sint freq_req) 1000) 50000000
     \<and> fst (snd (djtg_set_speed hif 100000000 freq_set w)) = 50000000
     \<and> fst (snd (djtg_set_speed hif 10 freq_set w)) = 1000
     \<and> fst (snd (djtg_set_speed hif 2000000 freq_set w)) = 2000000"
proof -
  have set: "djtg_set_speed hif f freq_set w =
       (TRUE, spec_clamp f,
        w\<lparr>device_registry := (device_registry w)(hif \<mapsto> d\<lparr>clock_freq := spec_clamp f\<rparr>)\<rparr>)"
    for f
    using assms by (simp add: djtg_set_speed_def set_speed_actual Let_def)
  have get: "djtg_get_speed hif freq_cur (snd (snd (djtg_set_speed hif freq_req freq_set w))) =
         (TRUE, spec_clamp freq_req, snd (snd (djtg_set_speed hif freq_req freq_set w)))"
    using assms by (simp add: set djtg_get_speed_def)
  have "- (2 ^ 31) \<le> min (max (sint freq_req) 1000) 50000000"
    and "min (max (sint freq_req) 1000) 50000000 < 2 ^ 31"
    by simp_all
  then have val: "sint (spec_clamp freq_req) = min (max (sint freq_req) 1000) 50000000"
    unfolding spec_clamp_def by (rule sint_word_of_int_c_int)
  have examples: "fst (snd (djtg_set_speed hif 100000000 freq_set w)) = 50000000"
    "fst (snd (djtg_set_speed hif 10 freq_set w)) = 1000"
    "fst (snd (djtg_set_speed hif 2000000 freq_set w)) = 2000000"
    by (simp_all add: set spec_clamp_def)
  from set [of freq_req] get val examples show ?thesis
    by (intro conjI)
qed

theorem set_speed_clamps_witness:
  "device_registry enabled_world 1 = Some (JtagDevice_ctor\<lparr>enabled := True\<rparr>)
   \<and> enabled (JtagDevice_ctor\<lparr>enabled := True\<rparr>)
   \<and> fst (djtg_set_speed 1 100000000 0 enabled_world) = TRUE
   \<and> fst (snd (djtg_set_speed 1 100000000 0 enabled_world)) = 50000000
   \<and> fst (snd (djtg_get_speed 1 0 (snd (snd (djtg_set_speed 1 100000000 0 enabled_world)))))
       = 50000000"
proof -
  have e: "enabled (JtagDevice_ctor\<lparr>enabled := True\<rparr>)" by simp
  note r = set_speed_clamps [OF enabled_world_entry e, of 100000000 0 0]
  have v: "spec_clamp 100000000 = 50000000"
    by (simp add: spec_clamp_def)
  from r [THEN conjunct1]
  have s: "fst (djtg_set_speed 1 100000000 0 enabled_world) = TRUE"
    "fst (snd (djtg_set_speed 1 100000000 0 enabled_world)) = 50000000"
    by (simp_all add: v)
  from r [THEN conjunct2, THEN conjunct1]
  have g: "fst (snd (djtg_get_speed 1 0 (snd (snd (djtg_set_speed 1 100000000 0 enabled_world)))))
       = 50000000"
    by (simp add: v)
  from enabled_world_entry e s g show ?thesis by simp
qed

text \<open>
  Claim C5. \<open>djtg_enable\<close> either returns \<open>FALSE\<close> and leaves the whole state as it
  was (when the number drawn is below the failure rate), or returns \<open>TRUE\<close> and sets the
  entry of the handle to the constructor's values with \<open>enabled = true\<close>: frequency
  1000000, timeout 1000, device id 0x12345678, all four pin levels low. The new entry does
  not depend on the old one, so enabling again drops a frequency set before.
\<close>

theorem enable_defaults:
  "(simulate_communication_error drawn default_failure_rate \<longrightarrow>
      djtg_enable drawn hif w = (FALSE, w))
   \<and> (\<not> simulate_communication_error drawn default_failure_rate \<longrightarrow>
      djtg_enable drawn hif w =
        (TRUE, w\<lparr>device_registry := (device_registry w)
           (hif \<mapsto> \<lparr>enabled = True, clock_freq = 1000000,
                     tck_state = False, tms_state = False, tdi_state = False, tdo_state = False,
                     device_id = 0x12345678, timeout_ms = 1000\<rparr>)\<rparr>))"
  by (simp add: djtg_enable_def registry_at_def JtagDevice_ctor_def)

theorem enable_defaults_witness:
  "simulate_communication_error (1 / 200) default_failure_rate
   \<and> djtg_enable (1 / 200) 1 enabled_world = (FALSE, enabled_world)
   \<and> \<not> simulate_communication_error (1 / 2) default_failure_rate
   \<and> fst (djtg_enable (1 / 2) 1 (snd (snd (djtg_set_speed 1 2000000 0 enabled_world)))) = TRUE
   \<and> map_option clock_freq
        (device_registry (snd (snd (djtg_set_speed 1 2000000 0 enabled_world))) 1) = Some 2000000
   \<and> map_option clock_freq
        (device_registry
           (snd (djtg_enable (1 / 2) 1 (snd (snd (djtg_set_speed 1 2000000 0 enabled_world))))) 1)
       = Some 1000000"
proof -
  have a: "simulate_communication_error (1 / 200) default_failure_rate"
    and b: "\<not> simulate_communication_error (1 / 2) default_failure_rate"
    by (simp_all add: simulate_communication_error_def default_failure_rate_def)
  have c: "map_option clock_freq
        (device_registry (snd (snd (djtg_set_speed 1 2000000 0 enabled_world))) 1) = Some 2000000"
    by (simp add: djtg_set_speed_def enabled_world_entry word_sless_alt Let_def)
  from enable_defaults [of "1 / 200" 1 enabled_world]
    enable_defaults [of "1 / 2" 1 "snd (snd (djtg_set_speed 1 2000000 0 enabled_world))"]
    a b c
  show ?thesis by simp
qed

text \<open>
  Claim C4. On a handle with no registry entry, or whose entry has \<open>enabled = false\<close>,
  \<open>djtg_disable\<close>, \<open>djtg_set_speed\<close>, \<open>djtg_get_speed\<close>, \<open>djtg_set_tms_tdi_tck\<close>,
  \<open>djtg_get_tms_tdi_tdo_tck\<close> and both bulk shift functions return \<open>FALSE\<close> and leave the
  registry, the call log, the test bench, the arrays and their output parameters
  unchanged. After \<open>djtg_disable\<close>, whatever it returned, the handle is in that
  condition, so every later shift or speed call fails.
\<close>

theorem not_enabled_fails:
  "(not_enabled w hif \<longrightarrow>
      djtg_disable hif w = (FALSE, w)
      \<and> djtg_set_speed hif freq_req freq_set w = (FALSE, freq_set, w)
      \<and> djtg_get_speed hif freq_cur w = (FALSE, freq_cur, w)
      \<and> djtg_set_tms_tdi_tck tb hif tms tdi tck w = (FALSE, w)
      \<and> djtg_get_tms_tdi_tdo_tck tb hif outs w = (FALSE, outs, w)
      \<and> djtg_put_tms_tdi_bits tb hif tms_data tdi_data tdo_data cbit overlap w = Some (FALSE, w)
      \<and> djtg_get_tms_tdi_tdo_bits tb hif tms_data tdi_data tdo_data cbit overlap w
          = Some (FALSE, w))
   \<and> not_enabled (snd (djtg_disable hif w0)) hif"
proof (intro conjI impI)
  assume "not_enabled w hif"
  then have guard: "device_registry w hif = None
      \<or> (\<exists>d. device_registry w hif = Some d \<and> \<not> enabled d)"
    by (simp add: not_enabled_def split: option.splits)
  from guard show "djtg_disable hif w = (FALSE, w)"
    by (auto simp add: djtg_disable_def)
  from guard show "djtg_set_speed hif freq_req freq_set w = (FALSE, freq_set, w)"
    by (auto simp add: djtg_set_speed_def)
  from guard show "djtg_get_speed hif freq_cur w = (FALSE, freq_cur, w)"
    by (auto simp add: djtg_get_speed_def)
  from guard show "djtg_set_tms_tdi_tck tb hif tms tdi tck w = (FALSE, w)"
    by (auto simp add: djtg_set_tms_tdi_tck_def)
  from guard show "djtg_get_tms_tdi_tdo_tck tb hif outs w = (FALSE, outs, w)"
    by (auto simp add: djtg_get_tms_tdi_tdo_tck_def)
  from guard
  show put: "djtg_put_tms_tdi_bits tb hif tms_data tdi_data tdo_data cbit overlap w
      = Some (FALSE, w)"
    by (auto simp add: djtg_put_tms_tdi_bits_def)
  then show "djtg_get_tms_tdi_tdo_bits tb hif tms_data tdi_data tdo_data cbit overlap w
      = Some (FALSE, w)"
    by (simp add: djtg_get_tms_tdi_tdo_bits_def)
next
  show "not_enabled (snd (djtg_disable hif w0)) hif"
    by (simp add: djtg_disable_def not_enabled_def split: option.splits)
qed

theorem not_enabled_fails_witness:
  "not_enabled example_world 1
   \<and> djtg_disable 1 example_world = (FALSE, example_world)
   \<and> djtg_put_tms_tdi_bits loopback 1 2 3 4 10 False example_world = Some (FALSE, example_world)
   \<and> device_registry enabled_world 1 = Some (JtagDevice_ctor\<lparr>enabled := True\<rparr>)
   \<and> fst (djtg_disable 1 enabled_world) = TRUE
   \<and> not_enabled (snd (djtg_disable 1 enabled_world)) 1
   \<and> djtg_set_speed 1 2000000 7 (snd (djtg_disable 1 enabled_world))
       = (FALSE, 7, snd (djtg_disable 1 enabled_world))
   \<and> djtg_get_tms_tdi_tdo_bits loopback 1 2 3 4 10 False (snd (djtg_disable 1 enabled_world))
       = Some (FALSE, snd (djtg_disable 1 enabled_world))"
proof -
  note never = not_enabled_fails
    [of example_world 1 2000000 7 0 loopback True True True "(False, False, False, False)"
        2 3 4 10 False enabled_world]
  note after = not_enabled_fails
    [of "snd (djtg_disable 1 enabled_world)" 1 2000000 7 0 loopback True True True
        "(False, False, False, False)" 2 3 4 10 False enabled_world]
  have d: "fst (djtg_disable 1 enabled_world) = TRUE"
    by (simp add: djtg_disable_def enabled_world_entry)
  from never example_world_not_enabled
  have n: "djtg_disable 1 example_world = (FALSE, example_world)"
    "djtg_put_tms_tdi_bits loopback 1 2 3 4 10 False example_world = Some (FALSE, example_world)"
    by simp_all
  from after have a0: "not_enabled (snd (djtg_disable 1 enabled_world)) 1"
    by (rule conjunct2)
  with after
  have a: "djtg_set_speed 1 2000000 7 (snd (djtg_disable 1 enabled_world))
       = (FALSE, 7, snd (djtg_disable 1 enabled_world))"
    "djtg_get_tms_tdi_tdo_bits loopback 1 2 3 4 10 False (snd (djtg_disable 1 enabled_world))
       = Some (FALSE, snd (djtg_disable 1 enabled_world))"
    by simp_all
  from example_world_not_enabled n enabled_world_entry d a0 a show ?thesis
    by simp
qed

section \<open>Bulk shifting: timeout and the get/put pair\<close>

text \<open>
  Claim C6. On an enabled handle \<open>djtg_put_tms_tdi_bits\<close> returns \<open>FALSE\<close> exactly
  when \<open>cbit / 1000\<close> (C's truncating division) is greater than the \<open>timeout_ms\<close> stored
  for the handle, and then the state it returns is the state it was given: no call to the
  test bench, no write to the TDO array, no change to the registry.
\<close>

theorem put_bits_timeout:
  assumes "device_registry w hif = Some d" and "enabled d"
  shows
    "(sint (timeout_ms d) < sint cbit sdiv 1000 \<longrightarrow>
        djtg_put_tms_tdi_bits tb hif tms_data tdi_data tdo_data cbit overlap w = Some (FALSE, w))
     \<and> ((\<exists>w'. djtg_put_tms_tdi_bits tb hif tms_data tdi_data tdo_data cbit overlap w
               = Some (FALSE, w'))
          = (sint (timeout_ms d) < sint cbit sdiv 1000))"
proof -
  have timeout: "djtg_put_tms_tdi_bits tb hif tms_data tdi_data tdo_data cbit overlap w
      = Some (FALSE, w)" if "sint (timeout_ms d) < sint cbit sdiv 1000"
    using assms that by (simp add: djtg_put_tms_tdi_bits_def simulate_timeout_iff)
  have passed: "djtg_put_tms_tdi_bits tb hif tms_data tdi_data tdo_data cbit overlap w
      \<noteq> Some (FALSE, w')" if "\<not> sint (timeout_ms d) < sint cbit sdiv 1000" for w'
    using assms that
    by (simp add: djtg_put_tms_tdi_bits_def simulate_timeout_iff TRUE_neq_FALSE
        split: option.splits)
  from timeout passed show ?thesis by blast
qed

theorem put_bits_timeout_witness:
  "device_registry enabled_world 1 = Some (JtagDevice_ctor\<lparr>enabled := True\<rparr>)
   \<and> enabled (JtagDevice_ctor\<lparr>enabled := True\<rparr>)
   \<and> sint (timeout_ms (JtagDevice_ctor\<lparr>enabled := True\<rparr>)) < sint (1001000 :: c_int) sdiv 1000
   \<and> djtg_put_tms_tdi_bits loopback 1 2 3 4 1001000 False enabled_world
       = Some (FALSE, enabled_world)
   \<and> \<not> sint (timeout_ms (JtagDevice_ctor\<lparr>enabled := True\<rparr>)) < sint (1000999 :: c_int) sdiv 1000
   \<and> (\<nexists>w'. djtg_put_tms_tdi_bits loopback 1 2 3 4 1000999 False enabled_world
              = Some (FALSE, w'))
   \<and> \<not> sint (timeout_ms (JtagDevice_ctor\<lparr>enabled := True\<rparr>)) < sint (10 :: c_int) sdiv 1000
   \<and> map_option fst (djtg_put_tms_tdi_bits loopback 1 2 3 4 10 False enabled_world) = Some TRUE
   \<and> (\<nexists>w'. djtg_put_tms_tdi_bits loopback 1 2 3 4 10 False enabled_world
              = Some (FALSE, w'))"
proof -
  have e: "enabled (JtagDevice_ctor\<lparr>enabled := True\<rparr>)" by simp
  have q: "\<not> sint (timeout_ms (JtagDevice_ctor\<lparr>enabled := True\<rparr>))
      < sint (10 :: c_int) sdiv 1000"
    by (simp add: JtagDevice_ctor_def signed_divide_int_def)
  from put_bits_timeout [OF enabled_world_entry e, of 10 loopback 2 3 4 False] q
  have c: "\<nexists>w'. djtg_put_tms_tdi_bits loopback 1 2 3 4 10 False enabled_world
              = Some (FALSE, w')"
    by simp
  have t: "sint (timeout_ms (JtagDevice_ctor\<lparr>enabled := True\<rparr>))
      < sint (1001000 :: c_int) sdiv 1000"
    and p: "\<not> sint (timeout_ms (JtagDevice_ctor\<lparr>enabled := True\<rparr>))
      < sint (1000999 :: c_int) sdiv 1000"
    by (simp_all add: JtagDevice_ctor_def signed_divide_int_def)
  from put_bits_timeout [OF enabled_world_entry e, of 1001000 loopback 2 3 4 False] t
  have a: "djtg_put_tms_tdi_bits loopback 1 2 3 4 1001000 False enabled_world
       = Some (FALSE, enabled_world)"
    by simp
  from put_bits_timeout [OF enabled_world_entry e, of 1000999 loopback 2 3 4 False] p
  have b: "\<nexists>w'. djtg_put_tms_tdi_bits loopback 1 2 3 4 1000999 False enabled_world
              = Some (FALSE, w')"
    by simp
  from enabled_world_entry e t a p b q put_example_true c show ?thesis
    by (intro conjI)
qed

text \<open>
  Claim C8. \<open>djtg_get_tms_tdi_tdo_bits\<close> returns what \<open>djtg_put_tms_tdi_bits\<close> returns
  on the same arguments: the same result and the same final state, which holds the TDO
  array and the log of the calls issued. Neither depends on \<open>overlap\<close>.
\<close>

theorem get_put_identical:
  "djtg_get_tms_tdi_tdo_bits tb hif tms_data tdi_data tdo_data cbit overlap w
     = djtg_put_tms_tdi_bits tb hif tms_data tdi_data tdo_data cbit overlap w
   \<and> djtg_put_tms_tdi_bits tb hif tms_data tdi_data tdo_data cbit overlap w
     = djtg_put_tms_tdi_bits tb hif tms_data tdi_data tdo_data cbit overlap' w
   \<and> djtg_get_tms_tdi_tdo_bits tb hif tms_data tdi_data tdo_data cbit overlap w
     = djtg_get_tms_tdi_tdo_bits tb hif tms_data tdi_data tdo_data cbit overlap' w"
  by (simp add: djtg_get_tms_tdi_tdo_bits_def djtg_put_tms_tdi_bits_def)

section \<open>TAP navigation\<close>

lemma sv_calls_sv_jtag_step:
  "sv_calls (snd (sv_jtag_step tb tms tdi is_last w)) =
     sv_calls w @ [Sv_jtag_step tms tdi is_last]"
  by (simp add: sv_jtag_step_eq)

lemma sv_calls_tap_reset_loop:
  "sv_calls (tap_reset_loop tb is w) =
     sv_calls w @ replicate (length is) (Sv_jtag_step True False False)"
  by (induction "is" arbitrary: w) (simp_all add: sv_calls_sv_jtag_step replicate_append_same)

lemma sv_calls_tms_sequence_loop:
  "sv_calls (tms_sequence_loop tb tms_sequence w) =
     sv_calls w @ map (\<lambda>tms_val. Sv_jtag_step tms_val False False) tms_sequence"
  by (induction tms_sequence arbitrary: w) (simp_all add: sv_calls_sv_jtag_step)

lemma sv_calls_tap_reset:
  "sv_calls (tap_reset tb w) =
     sv_calls w @ map (\<lambda>tms_val. Sv_jtag_step tms_val False False)
       [True, True, True, True, True, False]"
  by (simp add: tap_reset_def sv_calls_sv_jtag_step sv_calls_tap_reset_loop eval_nat_numeral)

lemma sv_calls_navigate_to_shift_ir:
  "sv_calls (navigate_to_shift_ir tb w) =
     sv_calls w @ map (\<lambda>tms_val. Sv_jtag_step tms_val False False) [True, True, False, False]"
  by (simp add: navigate_to_shift_ir_def sv_calls_sv_jtag_step)

lemma sv_calls_exit_to_run_test_idle:
  "sv_calls (exit_to_run_test_idle tb w) =
     sv_calls w @ map (\<lambda>tms_val. Sv_jtag_step tms_val False False) [True, False]"
  by (simp add: exit_to_run_test_idle_def sv_calls_sv_jtag_step)

lemma sv_calls_navigate_to_shift_dr_with_idle:
  "sv_calls (navigate_to_shift_dr_with_idle tb w) =
     sv_calls w @ map (\<lambda>tms_val. Sv_jtag_step tms_val False False) [False, True, False, False]"
  by (simp add: navigate_to_shift_dr_with_idle_def sv_calls_sv_jtag_step)

text \<open>
  Claim C2. \<open>tap_reset\<close>, then \<open>navigate_to_shift_ir\<close>, then \<open>exit_to_run_test_idle\<close>,
  then \<open>navigate_to_shift_dr_with_idle\<close> append exactly 16 \<open>sv_jtag_step\<close> calls to the
  log, all with TDI = 0 and \<open>is_last\<close> = 0, with TMS 1,1,1,1,1,0 then 1,1,0,0 then 1,0 then
  0,1,0,0. The test bench is arbitrary, so the sequence is the same whatever TDO it
  answers.
\<close>

theorem tap_navigation_calls:
  "sv_calls (tap_reset tb w) =
     sv_calls w @ map (\<lambda>tms_val. Sv_jtag_step tms_val False False)
       [True, True, True, True, True, False]
   \<and> sv_calls (navigate_to_shift_ir tb w) =
     sv_calls w @ map (\<lambda>tms_val. Sv_jtag_step tms_val False False) [True, True, False, False]
   \<and> sv_calls (exit_to_run_test_idle tb w) =
     sv_calls w @ map (\<lambda>tms_val. Sv_jtag_step tms_val False False) [True, False]
   \<and> sv_calls (navigate_to_shift_dr_with_idle tb w) =
     sv_calls w @ map (\<lambda>tms_val. Sv_jtag_step tms_val False False) [False, True, False, False]
   \<and> sv_calls (navigate_to_shift_dr_with_idle tb (exit_to_run_test_idle tb
        (navigate_to_shift_ir tb (tap_reset tb w)))) =
     sv_calls w @ map (\<lambda>tms_val. Sv_jtag_step tms_val False False)
       ([True, True, True, True, True, False] @ [True, True, False, False] @ [True, False]
        @ [False, True, False, False])
   \<and> length (([True, True, True, True, True, False] @ [True, True, False, False] @ [True, False]
        @ [False, True, False, False]) :: bool list) = 16"
  by (simp add: sv_calls_tap_reset sv_calls_navigate_to_shift_ir sv_calls_exit_to_run_test_idle
      sv_calls_navigate_to_shift_dr_with_idle)

theorem tap_navigation_calls_witness:
  "sv_calls (navigate_to_shift_dr_with_idle loopback (exit_to_run_test_idle loopback
      (navigate_to_shift_ir loopback (tap_reset loopback example_world)))) =
   [Sv_jtag_step True False False, Sv_jtag_step True False False, Sv_jtag_step True False False,
    Sv_jtag_step True False False, Sv_jtag_step True False False, Sv_jtag_step False False False,
    Sv_jtag_step True False False, Sv_jtag_step True False False, Sv_jtag_step False False False,
    Sv_jtag_step False False False,
    Sv_jtag_step True False False, Sv_jtag_step False False False,
    Sv_jtag_step False False False, Sv_jtag_step True False False, Sv_jtag_step False False False,
    Sv_jtag_step False False False]"
  using tap_navigation_calls [of loopback example_world]
  by (simp add: example_world_def)

section \<open>Bulk shifting: the bits on the wire\<close>

lemma sv_run_Cons:
  "sv_run tb ((tms, tdi, is_last) # cs) s =
     (fst (jtag_step tb tms tdi is_last s)
        # fst (sv_run tb cs (snd (jtag_step tb tms tdi is_last s))),
      snd (sv_run tb cs (snd (jtag_step tb tms tdi is_last s))))"
  by (simp split: prod.splits)

lemma step_call_triple: "step_call (tms, tdi, is_last) = Sv_jtag_step tms tdi is_last"
  by (simp add: step_call_def)

lemma length_sv_run: "length (fst (sv_run tb cs s)) = length cs"
proof (induction cs arbitrary: s)
  case Nil
  show ?case by simp
next
  case (Cons c cs)
  obtain tms tdi is_last where c: "c = (tms, tdi, is_last)"
    by (cases c)
  show ?case
    unfolding c sv_run_Cons by (simp add: Cons.IH)
qed

lemma clear_loop_eq:
  "\<forall>i\<in>set is. i < length tdo_ptr \<Longrightarrow>
   clear_loop is tdo_ptr = Some (fold (\<lambda>i xs. xs[i := 0]) is tdo_ptr)"
  by (induction "is" arbitrary: tdo_ptr) simp_all

lemma length_fold_clear: "length (fold (\<lambda>i xs. xs[i := 0]) is xs) = length xs"
  by (induction "is" arbitrary: xs) simp_all

lemma nth_fold_clear:
  "j < length xs \<Longrightarrow>
   fold (\<lambda>i xs. xs[i := (0 :: uint8_t)]) is xs ! j = (if j \<in> set is then 0 else xs ! j)"
  by (induction "is" arbitrary: xs) (auto simp add: nth_list_update length_fold_clear)

lemma fold_clear_upt:
  assumes "n \<le> length xs"
  shows "fold (\<lambda>i xs. xs[i := (0 :: uint8_t)]) [0..<n] xs = replicate n 0 @ drop n xs"
proof (rule nth_equalityI)
  show "length (fold (\<lambda>i xs. xs[i := 0]) [0..<n] xs) = length (replicate n 0 @ drop n xs)"
    using assms by (simp add: length_fold_clear)
  fix j
  assume "j < length (fold (\<lambda>i xs. xs[i := 0]) [0..<n] xs)"
  then have "j < length xs" by (simp add: length_fold_clear)
  then show "fold (\<lambda>i xs. xs[i := 0]) [0..<n] xs ! j = (replicate n 0 @ drop n xs) ! j"
    using assms by (simp add: nth_fold_clear nth_append)
qed

lemma clear_loop_upt:
  "n \<le> length tdo_ptr \<Longrightarrow> clear_loop [0..<n] tdo_ptr = Some (replicate n 0 @ drop n tdo_ptr)"
  by (simp add: clear_loop_eq fold_clear_upt)

lemma bits_to_bytes_loop_append:
  "\<forall>i\<in>set is. i div 8 < length xs \<Longrightarrow>
   bits_to_bytes_loop bits is (xs @ ys) = bits_to_bytes_loop bits is xs @ ys"
  by (induction "is" arbitrary: xs) (simp_all add: list_update_append nth_append)

lemma fold_pairs_bits_to_bytes_loop:
  "fold (\<lambda>(i, b) bytes. if b then bytes[i div 8 := set_bit_at (bytes ! (i div 8)) (i mod 8)]
                           else bytes)
        (zip is (map (\<lambda>i. bits ! i) is)) bytes
     = bits_to_bytes_loop bits is bytes"
  by (induction "is" arbitrary: bytes) simp_all

lemma put_bits_loop_run:
  assumes "tdo_data \<noteq> tms_data" and "tdo_data \<noteq> tdi_data"
    and "\<forall>i\<in>set is. i div 8 < length (open_arrays w tms_data)
           \<and> i div 8 < length (open_arrays w tdi_data)
           \<and> i div 8 < length (open_arrays w tdo_data)"
  shows "\<exists>w'. put_bits_loop tb tms_data tdi_data tdo_data cbit is w = Some w'
     \<and> device_registry w' = device_registry w
     \<and> open_arrays w' = (open_arrays w)
          (tdo_data :=
             fold (\<lambda>(i, b) bytes.
                     if b then bytes[i div 8 := set_bit_at (bytes ! (i div 8)) (i mod 8)]
                     else bytes)
               (zip is (fst (sv_run tb
                  (map (\<lambda>i. (bit (open_arrays w tms_data ! (i div 8)) (i mod 8),
                              bit (open_arrays w tdi_data ! (i div 8)) (i mod 8),
                              int i = sint cbit - 1)) is) (sv_state w))))
               (open_arrays w tdo_data))
     \<and> sv_calls w' = sv_calls w @ map step_call
            (map (\<lambda>i. (bit (open_arrays w tms_data ! (i div 8)) (i mod 8),
                        bit (open_arrays w tdi_data ! (i div 8)) (i mod 8),
                        int i = sint cbit - 1)) is)
     \<and> sv_state w' = snd (sv_run tb
            (map (\<lambda>i. (bit (open_arrays w tms_data ! (i div 8)) (i mod 8),
                        bit (open_arrays w tdi_data ! (i div 8)) (i mod 8),
                        int i = sint cbit - 1)) is) (sv_state w))"
  using assms
proof (induction "is" arbitrary: w)
  case Nil
  then show ?case by simp
next
  case (Cons i "is")
  let ?tms = "bit (open_arrays w tms_data ! (i div 8)) (i mod 8)"
  let ?tdi = "bit (open_arrays w tdi_data ! (i div 8)) (i mod 8)"
  let ?last = "int i = sint cbit - 1"
  let ?tdo = "fst (jtag_step tb ?tms ?tdi ?last (sv_state w))"
  let ?w1 = "w\<lparr>sv_calls := sv_calls w @ [Sv_jtag_step ?tms ?tdi ?last],
               sv_state := snd (jtag_step tb ?tms ?tdi ?last (sv_state w))\<rparr>"
  let ?bytes = "if ?tdo
      then (open_arrays w tdo_data)
             [i div 8 := set_bit_at (open_arrays w tdo_data ! (i div 8)) (i mod 8)]
      else open_arrays w tdo_data"
  let ?w2 = "?w1\<lparr>open_arrays := (open_arrays w)(tdo_data := ?bytes)\<rparr>"
  have in_range: "i div 8 < length (open_arrays w tms_data)"
    "i div 8 < length (open_arrays w tdi_data)" "i div 8 < length (open_arrays w tdo_data)"
    using Cons.prems(3) by simp_all
  have unfold_w1: "?tdo \<Longrightarrow> put_bits_loop tb tms_data tdi_data tdo_data cbit (i # is) w =
      put_bits_loop tb tms_data tdi_data tdo_data cbit is ?w2"
    using in_range by (simp add: Let_def sv_jtag_step_eq bit_at_iff)
  have unfold_w2: "\<not> ?tdo \<Longrightarrow> put_bits_loop tb tms_data tdi_data tdo_data cbit (i # is) w =
      put_bits_loop tb tms_data tdi_data tdo_data cbit is ?w1"
    using in_range by (simp add: Let_def sv_jtag_step_eq bit_at_iff)
  have same: "\<not> ?tdo \<Longrightarrow> ?w2 = ?w1"
    by simp
  have step: "put_bits_loop tb tms_data tdi_data tdo_data cbit (i # is) w =
      put_bits_loop tb tms_data tdi_data tdo_data cbit is ?w2"
    using unfold_w1 unfold_w2 same by (cases ?tdo) simp_all
  have pre: "\<forall>i\<in>set is. i div 8 < length (open_arrays ?w2 tms_data)
           \<and> i div 8 < length (open_arrays ?w2 tdi_data)
           \<and> i div 8 < length (open_arrays ?w2 tdo_data)"
    using Cons.prems by simp
  from Cons.IH [OF Cons.prems(1,2) pre] obtain w' where
    run: "put_bits_loop tb tms_data tdi_data tdo_data cbit is ?w2 = Some w'"
    and reg: "device_registry w' = device_registry ?w2"
    and arr: "open_arrays w' = (open_arrays ?w2)
          (tdo_data :=
             fold (\<lambda>(i, b) bytes.
                     if b then bytes[i div 8 := set_bit_at (bytes ! (i div 8)) (i mod 8)]
                     else bytes)
               (zip is (fst (sv_run tb
                  (map (\<lambda>i. (bit (open_arrays ?w2 tms_data ! (i div 8)) (i mod 8),
                              bit (open_arrays ?w2 tdi_data ! (i div 8)) (i mod 8),
                              int i = sint cbit - 1)) is) (sv_state ?w2))))
               (open_arrays ?w2 tdo_data))"
    and calls: "sv_calls w' = sv_calls ?w2 @ map step_call
            (map (\<lambda>i. (bit (open_arrays ?w2 tms_data ! (i div 8)) (i mod 8),
                        bit (open_arrays ?w2 tdi_data ! (i div 8)) (i mod 8),
                        int i = sint cbit - 1)) is)"
    and state: "sv_state w' = snd (sv_run tb
            (map (\<lambda>i. (bit (open_arrays ?w2 tms_data ! (i div 8)) (i mod 8),
                        bit (open_arrays ?w2 tdi_data ! (i div 8)) (i mod 8),
                        int i = sint cbit - 1)) is) (sv_state ?w2))"
    by blast
  have arrays: "open_arrays ?w2 tms_data = open_arrays w tms_data"
    "open_arrays ?w2 tdi_data = open_arrays w tdi_data"
    "open_arrays ?w2 tdo_data = ?bytes"
    using Cons.prems(1,2) by simp_all
  have "put_bits_loop tb tms_data tdi_data tdo_data cbit (i # is) w = Some w'"
    using step run by simp
  moreover have "device_registry w' = device_registry w"
    using reg by simp
  moreover have "open_arrays w' = (open_arrays w)
          (tdo_data :=
             fold (\<lambda>(i, b) bytes.
                     if b then bytes[i div 8 := set_bit_at (bytes ! (i div 8)) (i mod 8)]
                     else bytes)
               (zip (i # is) (fst (sv_run tb
                  (map (\<lambda>i. (bit (open_arrays w tms_data ! (i div 8)) (i mod 8),
                              bit (open_arrays w tdi_data ! (i div 8)) (i mod 8),
                              int i = sint cbit - 1)) (i # is)) (sv_state w))))
               (open_arrays w tdo_data))"
    unfolding arr arrays by (simp add: sv_run_Cons del: sv_run.simps)
  moreover have "sv_calls w' = sv_calls w @ map step_call
            (map (\<lambda>i. (bit (open_arrays w tms_data ! (i div 8)) (i mod 8),
                        bit (open_arrays w tdi_data ! (i div 8)) (i mod 8),
                        int i = sint cbit - 1)) (i # is))"
    unfolding calls arrays by (simp add: step_call_triple)
  moreover have "sv_state w' = snd (sv_run tb
            (map (\<lambda>i. (bit (open_arrays w tms_data ! (i div 8)) (i mod 8),
                        bit (open_arrays w tdi_data ! (i div 8)) (i mod 8),
                        int i = sint cbit - 1)) (i # is)) (sv_state w))"
    unfolding state arrays by (simp add: sv_run_Cons del: sv_run.simps)
  ultimately show ?case by blast
qed

lemma sint_add_7:
  assumes "sint (cbit :: c_int) + 7 < 2 ^ 31"
  shows "sint (cbit + 7) = sint cbit + 7"
proof -
  have "cbit + 7 = word_of_int (sint cbit + 7)"
    by simp
  moreover have "- (2 ^ 31) \<le> sint cbit + 7"
    using sint_c_int_range [of cbit] by simp
  ultimately show ?thesis
    using assms by (simp only: sint_word_of_int_c_int)
qed

lemma c_add_7:
  "sint (cbit :: c_int) + 7 < 2 ^ 31 \<Longrightarrow> c_add cbit 7 = Some (cbit + 7)"
  using sint_c_int_range [of cbit] by (simp add: c_add_def)

lemma nat_sdiv_8:
  "nat ((k + 7) sdiv 8) = (nat k + 7) div 8"
proof (cases "0 \<le> k")
  case True
  then have "(k + 7) sdiv 8 = (k + 7) div 8"
    by (simp add: signed_divide_int_def sgn_if)
  with True show ?thesis
    by (simp add: nat_div_distrib nat_add_distrib)
next
  case False
  then have "(k + 7) sdiv 8 \<le> 0"
    by (auto simp add: signed_divide_int_def sgn_if pos_imp_zdiv_nonneg_iff div_pos_pos_trivial)
  with False show ?thesis by simp
qed

lemma byte_count_eq:
  assumes "sint (cbit :: c_int) + 7 < 2 ^ 31"
  shows "nat (sint (c_div (cbit + 7) 8)) = (nat (sint cbit) + 7) div 8"
proof -
  have "sint (c_div (cbit + 7) 8) = sint (cbit + 7) sdiv sint (8 :: c_int)"
    by (rule sint_c_div) simp
  then show ?thesis
    using assms by (simp add: sint_add_7 nat_sdiv_8)
qed

lemma timeout_passed_no_overflow:
  assumes "sint tmo \<le> 2147482" and "\<not> simulate_timeout (c_div cbit 1000) tmo"
  shows "sint cbit + 7 < 2 ^ 31"
proof (cases "0 \<le> sint cbit")
  case True
  then have "sint cbit sdiv 1000 = sint cbit div 1000"
    by (simp add: signed_divide_int_def sgn_if)
  with assms have "sint cbit div 1000 \<le> 2147482"
    by (simp add: simulate_timeout_iff)
  then show ?thesis by simp
next
  case False
  then show ?thesis by simp
qed

lemma world_eqI:
  fixes w w' :: "'o world"
  assumes "device_registry w' = device_registry w"
    and "open_arrays w' = arrays" and "sv_calls w' = calls" and "sv_state w' = s"
  shows "w' = w\<lparr>open_arrays := arrays, sv_calls := calls, sv_state := s\<rparr>"
  using assms by (cases w, cases w') simp

lemma put_calls_eq:
  "map (\<lambda>i. (bit (tms_bytes ! (i div 8)) (i mod 8), bit (tdi_bytes ! (i div 8)) (i mod 8),
             int i = sint cbit - 1)) [0..<nat (sint cbit)]
     = spec_put_calls tms_bytes tdi_bytes (nat (sint cbit))"
  unfolding spec_put_calls_def by (rule map_cong) auto

lemma fold_pairs_upt:
  assumes "length bits = n"
  shows "fold (\<lambda>(i, b) bytes. if b then bytes[i div 8 := set_bit_at (bytes ! (i div 8)) (i mod 8)]
                           else bytes)
        (zip [0..<n] bits) bytes
     = bits_to_bytes_loop bits [0..<n] bytes"
proof -
  have "map (\<lambda>i. bits ! i) [0..<n] = bits"
    using assms by (auto simp add: map_nth)
  then show ?thesis
    using fold_pairs_bits_to_bytes_loop [of "[0..<n]" bits bytes] by simp
qed

lemma bits_to_bytes_loop_cleared:
  assumes "length bits = n"
  shows "bits_to_bytes_loop bits [0..<n] (replicate ((n + 7) div 8) 0 @ rest)
     = bits_to_bytes bits @ rest"
proof -
  have "\<forall>i\<in>set [0..<n]. i div 8 < length (replicate ((n + 7) div 8) (0 :: uint8_t))"
    by auto
  then show ?thesis
    using assms by (simp add: bits_to_bytes_loop_append bits_to_bytes_def)
qed

text \<open>
  Claim C1, amended. On an enabled handle, with a bit count that passes the timeout check
  and a TDO array that is neither the TMS nor the TDI array, \<open>djtg_put_tms_tdi_bits\<close>
  returns \<open>TRUE\<close> and issues exactly \<open>n = cbit\<close> calls of \<open>sv_jtag_step\<close> (none when
  \<open>cbit\<close> is negative), in the order of the index: call \<open>i\<close> carries bit \<open>i mod 8\<close> of
  byte \<open>i / 8\<close> of the TMS and of the TDI array, and \<open>is_last\<close> exactly when
  \<open>i = n - 1\<close>. The first \<open>ceil(n / 8)\<close> bytes of the TDO array become the packed TDO
  answers: bit \<open>i mod 8\<close> of byte \<open>i / 8\<close> is the TDO of call \<open>i\<close>, every other bit of
  these bytes is zero; the bytes after them, the registry and the other arrays are
  unchanged. The remaining preconditions only exclude undefined executions of the C++
  code: the three arrays hold at least \<open>ceil(n / 8)\<close> bytes, and \<open>cbit + 7\<close> does not
  overflow (lemma \<open>timeout_passed_no_overflow\<close>: it cannot when the check passed with a
  timeout of at most 2147482 ms; the constructor sets 1000 and nothing changes it).
  That the TDO array is distinct is a real restriction of the claim, not undefined
  behaviour: the counterexample after the witness passes the TDI array as TDO.
\<close>

theorem put_bits_shifts:
  fixes tb :: "'o sv_testbench" and w :: "'o world" and cbit :: c_int
    and tms_data tdi_data tdo_data :: svOpenArrayHandle
  defines "n \<equiv> nat (sint cbit)"
  defines "calls \<equiv> spec_put_calls (open_arrays w tms_data) (open_arrays w tdi_data) n"
  defines "tdos \<equiv> fst (sv_run tb calls (sv_state w))"
  assumes entry: "device_registry w hif = Some d" and en: "enabled d"
    and pass: "\<not> simulate_timeout (c_div cbit 1000) (timeout_ms d)"
    and no_overflow: "sint cbit + 7 < 2 ^ 31"
    and distinct: "tdo_data \<noteq> tms_data" "tdo_data \<noteq> tdi_data"
    and len_tms: "(n + 7) div 8 \<le> length (open_arrays w tms_data)"
    and len_tdi: "(n + 7) div 8 \<le> length (open_arrays w tdi_data)"
    and len_tdo: "(n + 7) div 8 \<le> length (open_arrays w tdo_data)"
  shows
    "djtg_put_tms_tdi_bits tb hif tms_data tdi_data tdo_data cbit overlap w =
       Some (TRUE,
         w\<lparr>open_arrays := (open_arrays w)
              (tdo_data := bits_to_bytes tdos @ drop ((n + 7) div 8) (open_arrays w tdo_data)),
           sv_calls := sv_calls w @ map step_call calls,
           sv_state := snd (sv_run tb calls (sv_state w))\<rparr>)
     \<and> length calls = n
     \<and> (\<forall>i<n. calls ! i =
           (bit (open_arrays w tms_data ! (i div 8)) (i mod 8),
            bit (open_arrays w tdi_data ! (i div 8)) (i mod 8), i = n - 1))
     \<and> length tdos = n
     \<and> length (bits_to_bytes tdos) = (n + 7) div 8
     \<and> (\<forall>j<(n + 7) div 8. \<forall>k<8.
          bit (bits_to_bytes tdos ! j) k = (8 * j + k < n \<and> tdos ! (8 * j + k)))"
proof -
  let ?bc = "(n + 7) div 8"
  let ?A = "open_arrays w tdo_data"
  let ?cleared = "replicate ?bc 0 @ drop ?bc ?A"
  let ?w0 = "w\<lparr>open_arrays := (open_arrays w)(tdo_data := ?cleared)\<rparr>"
  have len_calls: "length calls = n"
    by (simp add: calls_def spec_put_calls_def)
  have len_tdos: "length tdos = n"
    by (simp add: tdos_def length_sv_run len_calls)
  have nth_calls: "\<forall>i<n. calls ! i =
           (bit (open_arrays w tms_data ! (i div 8)) (i mod 8),
            bit (open_arrays w tdi_data ! (i div 8)) (i mod 8), i = n - 1)"
    by (auto simp add: calls_def spec_put_calls_def)
  have bc: "nat (sint (c_div (cbit + 7) 8)) = ?bc"
    using no_overflow by (simp add: byte_count_eq n_def)
  have cleared: "clear_loop [0..<?bc] ?A = Some ?cleared"
    using len_tdo by (rule clear_loop_upt)
  have arrays0: "open_arrays ?w0 tms_data = open_arrays w tms_data"
    "open_arrays ?w0 tdi_data = open_arrays w tdi_data"
    "open_arrays ?w0 tdo_data = ?cleared"
    using distinct by simp_all
  have "\<forall>i\<in>set [0..<n]. i div 8 < ?bc"
    by auto
  then have pre: "\<forall>i\<in>set [0..<n]. i div 8 < length (open_arrays ?w0 tms_data)
           \<and> i div 8 < length (open_arrays ?w0 tdi_data)
           \<and> i div 8 < length (open_arrays ?w0 tdo_data)"
    unfolding arrays0 using len_tms len_tdi len_tdo by auto
  from put_bits_loop_run [OF distinct pre, of tb cbit]
  obtain w' where
    run: "put_bits_loop tb tms_data tdi_data tdo_data cbit [0..<n] ?w0 = Some w'"
    and reg: "device_registry w' = device_registry ?w0"
    and arr: "open_arrays w' = (open_arrays ?w0)
          (tdo_data :=
             fold (\<lambda>(i, b) bytes.
                     if b then bytes[i div 8 := set_bit_at (bytes ! (i div 8)) (i mod 8)]
                     else bytes)
               (zip [0..<n] (fst (sv_run tb
                  (map (\<lambda>i. (bit (open_arrays ?w0 tms_data ! (i div 8)) (i mod 8),
                              bit (open_arrays ?w0 tdi_data ! (i div 8)) (i mod 8),
                              int i = sint cbit - 1)) [0..<n]) (sv_state ?w0))))
               (open_arrays ?w0 tdo_data))"
    and cls: "sv_calls w' = sv_calls ?w0 @ map step_call
            (map (\<lambda>i. (bit (open_arrays ?w0 tms_data ! (i div 8)) (i mod 8),
                        bit (open_arrays ?w0 tdi_data ! (i div 8)) (i mod 8),
                        int i = sint cbit - 1)) [0..<n])"
    and st: "sv_state w' = snd (sv_run tb
            (map (\<lambda>i. (bit (open_arrays ?w0 tms_data ! (i div 8)) (i mod 8),
                        bit (open_arrays ?w0 tdi_data ! (i div 8)) (i mod 8),
                        int i = sint cbit - 1)) [0..<n]) (sv_state ?w0))"
    by blast
  have cs: "map (\<lambda>i. (bit (open_arrays w tms_data ! (i div 8)) (i mod 8),
                        bit (open_arrays w tdi_data ! (i div 8)) (i mod 8),
                        int i = sint cbit - 1)) [0..<n] = calls"
    unfolding n_def calls_def by (rule put_calls_eq)
  have reg': "device_registry w' = device_registry w"
    using reg by simp
  have cls': "sv_calls w' = sv_calls w @ map step_call calls"
    using cls unfolding arrays0 unfolding cs by simp
  have st': "sv_state w' = snd (sv_run tb calls (sv_state w))"
    using st unfolding arrays0 unfolding cs by simp
  have "open_arrays w' = (open_arrays ?w0)
      (tdo_data := bits_to_bytes_loop tdos [0..<n] ?cleared)"
    using arr unfolding arrays0 unfolding cs
    by (simp add: tdos_def [symmetric] fold_pairs_upt [OF len_tdos])
  then have arr': "open_arrays w' = (open_arrays w)
      (tdo_data := bits_to_bytes tdos @ drop ?bc ?A)"
    by (simp add: bits_to_bytes_loop_cleared [OF len_tdos])
  have w': "w' = w\<lparr>open_arrays := (open_arrays w)
              (tdo_data := bits_to_bytes tdos @ drop ?bc ?A),
           sv_calls := sv_calls w @ map step_call calls,
           sv_state := snd (sv_run tb calls (sv_state w))\<rparr>"
    using reg' arr' cls' st' by (rule world_eqI)
  have "djtg_put_tms_tdi_bits tb hif tms_data tdi_data tdo_data cbit overlap w = Some (TRUE, w')"
    using entry en pass c_add_7 [OF no_overflow] cleared run
    by (simp add: djtg_put_tms_tdi_bits_def bc n_def [symmetric])
  with w' len_calls nth_calls len_tdos show ?thesis
    by (simp add: length_bits_to_bytes bit_bits_to_bytes)
qed

theorem put_bits_shifts_witness:
  "device_registry enabled_world 1 = Some (JtagDevice_ctor\<lparr>enabled := True\<rparr>)
   \<and> enabled (JtagDevice_ctor\<lparr>enabled := True\<rparr>)
   \<and> \<not> simulate_timeout (c_div 10 1000) (timeout_ms (JtagDevice_ctor\<lparr>enabled := True\<rparr>))
   \<and> sint (10 :: c_int) + 7 < 2 ^ 31
   \<and> (4 :: svOpenArrayHandle) \<noteq> 2 \<and> (4 :: svOpenArrayHandle) \<noteq> 3
   \<and> (nat (sint (10 :: c_int)) + 7) div 8 \<le> length (open_arrays enabled_world 2)
   \<and> (nat (sint (10 :: c_int)) + 7) div 8 \<le> length (open_arrays enabled_world 3)
   \<and> (nat (sint (10 :: c_int)) + 7) div 8 \<le> length (open_arrays enabled_world 4)
   \<and> map_option fst (djtg_put_tms_tdi_bits loopback 1 2 3 4 10 False enabled_world) = Some TRUE
   \<and> map_option (\<lambda>r. sv_calls (snd r))
        (djtg_put_tms_tdi_bits loopback 1 2 3 4 10 False enabled_world) =
       Some [Sv_jtag_step True True False, Sv_jtag_step False False False,
             Sv_jtag_step False True False, Sv_jtag_step False False False,
             Sv_jtag_step False False False, Sv_jtag_step False True False,
             Sv_jtag_step False False False, Sv_jtag_step True True False,
             Sv_jtag_step False True False, Sv_jtag_step True True True]
   \<and> map_option (\<lambda>r. open_arrays (snd r) 4)
        (djtg_put_tms_tdi_bits loopback 1 2 3 4 10 False enabled_world) =
       Some [0xA5, 0x03, 0xFF]"
proof -
  have h1: "device_registry enabled_world 1 = Some (JtagDevice_ctor\<lparr>enabled := True\<rparr>)"
    by (rule enabled_world_entry)
  have h2: "enabled (JtagDevice_ctor\<lparr>enabled := True\<rparr>)"
    by simp
  have h3: "\<not> simulate_timeout (c_div 10 1000) (timeout_ms (JtagDevice_ctor\<lparr>enabled := True\<rparr>))"
    by (simp add: simulate_timeout_iff JtagDevice_ctor_def signed_divide_int_def)
  have h4: "sint (10 :: c_int) + 7 < 2 ^ 31"
    by simp
  have h5: "(4 :: svOpenArrayHandle) \<noteq> 2" and h6: "(4 :: svOpenArrayHandle) \<noteq> 3"
    by simp_all
  have h7: "(nat (sint (10 :: c_int)) + 7) div 8 \<le> length (open_arrays enabled_world 2)"
    and h8: "(nat (sint (10 :: c_int)) + 7) div 8 \<le> length (open_arrays enabled_world 3)"
    and h9: "(nat (sint (10 :: c_int)) + 7) div 8 \<le> length (open_arrays enabled_world 4)"
    by (simp_all add: enabled_world_arrays)
  have calls: "spec_put_calls [0x81, 0x02] [0xA5, 0x03] 10 =
      [(True, True, False), (False, False, False), (False, True, False), (False, False, False),
       (False, False, False), (False, True, False), (False, False, False), (True, True, False),
       (False, True, False), (True, True, True)]"
    by (simp add: spec_put_calls_def upt_rec)
  have tdos: "sv_run loopback
      [(True, True, False), (False, False, False), (False, True, False), (False, False, False),
       (False, False, False), (False, True, False), (False, False, False), (True, True, False),
       (False, True, False), (True, True, True)] () =
      ([True, False, True, False, False, True, False, True, True, True], ())"
    by (simp add: loopback_def)
  have bytes: "bits_to_bytes [True, False, True, False, False, True, False, True, True, True]
      = [0xA5, 0x03]"
    by code_simp
  note r = put_bits_shifts [OF h1 h2 h3 h4 h5 h6 h7 h8 h9, of loopback False, THEN conjunct1]
  have res: "map_option fst (djtg_put_tms_tdi_bits loopback 1 2 3 4 10 False enabled_world)
        = Some TRUE"
    "map_option (\<lambda>r. sv_calls (snd r))
        (djtg_put_tms_tdi_bits loopback 1 2 3 4 10 False enabled_world) =
       Some [Sv_jtag_step True True False, Sv_jtag_step False False False,
             Sv_jtag_step False True False, Sv_jtag_step False False False,
             Sv_jtag_step False False False, Sv_jtag_step False True False,
             Sv_jtag_step False False False, Sv_jtag_step True True False,
             Sv_jtag_step False True False, Sv_jtag_step True True True]"
    "map_option (\<lambda>r. open_arrays (snd r) 4)
        (djtg_put_tms_tdi_bits loopback 1 2 3 4 10 False enabled_world) =
       Some [0xA5, 0x03, 0xFF]"
    unfolding r
    by (simp_all add: enabled_world_arrays calls tdos bytes step_call_triple del: sv_run.simps)
  from h1 h2 h3 h4 h5 h6 h7 h8 h9 res show ?thesis
    by (intro conjI)
qed

text \<open>
  Claim C1 as stated fails when the TDO array is also an input array: the code clears
  the first \<open>ceil(n / 8)\<close> bytes of the TDO array before it reads any TMS or TDI bit.
  Here handle 3 is passed both as TDI and as TDO, with 10 bits on an enabled handle whose
  timeout check passes, arrays long enough and no overflow. The TDI array holds
  \<open>0xA5, 0x03\<close>, so bit 0 of the TDI vector is 1, but the call returns \<open>TRUE\<close> having
  driven TDI = 0 on all ten calls: the calls issued are not the calls the claim describes.
\<close>

theorem put_bits_aliased_counterexample:
  "device_registry enabled_world 1 = Some (JtagDevice_ctor\<lparr>enabled := True\<rparr>)
   \<and> enabled (JtagDevice_ctor\<lparr>enabled := True\<rparr>)
   \<and> \<not> simulate_timeout (c_div 10 1000) (timeout_ms (JtagDevice_ctor\<lparr>enabled := True\<rparr>))
   \<and> sint (10 :: c_int) + 7 < 2 ^ 31
   \<and> (nat (sint (10 :: c_int)) + 7) div 8 \<le> length (open_arrays enabled_world 2)
   \<and> (nat (sint (10 :: c_int)) + 7) div 8 \<le> length (open_arrays enabled_world 3)
   \<and> open_arrays enabled_world 3 = [0xA5, 0x03]
   \<and> bit (open_arrays enabled_world 3 ! (0 div 8)) (0 mod 8)
   \<and> djtg_put_tms_tdi_bits loopback 1 2 3 3 10 False enabled_world =
       Some (TRUE, enabled_world
         \<lparr>open_arrays := (open_arrays enabled_world)(3 := [0, 0]),
          sv_calls :=
            [Sv_jtag_step True False False, Sv_jtag_step False False False,
             Sv_jtag_step False False False, Sv_jtag_step False False False,
             Sv_jtag_step False False False, Sv_jtag_step False False False,
             Sv_jtag_step False False False, Sv_jtag_step True False False,
             Sv_jtag_step False False False, Sv_jtag_step True False True]\<rparr>)
   \<and> [Sv_jtag_step True False False, Sv_jtag_step False False False,
       Sv_jtag_step False False False, Sv_jtag_step False False False,
       Sv_jtag_step False False False, Sv_jtag_step False False False,
       Sv_jtag_step False False False, Sv_jtag_step True False False,
       Sv_jtag_step False False False, Sv_jtag_step True False True]
      \<noteq> sv_calls enabled_world @ map step_call
          (spec_put_calls (open_arrays enabled_world 2) (open_arrays enabled_world 3)
             (nat (sint (10 :: c_int))))"
proof -
  have h1: "device_registry enabled_world 1 = Some (JtagDevice_ctor\<lparr>enabled := True\<rparr>)"
    by (rule enabled_world_entry)
  have h2: "enabled (JtagDevice_ctor\<lparr>enabled := True\<rparr>)"
    by simp
  have h3: "\<not> simulate_timeout (c_div 10 1000) (timeout_ms (JtagDevice_ctor\<lparr>enabled := True\<rparr>))"
    by (simp add: simulate_timeout_iff JtagDevice_ctor_def signed_divide_int_def)
  have h4: "sint (10 :: c_int) + 7 < 2 ^ 31"
    by simp
  have h5: "(nat (sint (10 :: c_int)) + 7) div 8 \<le> length (open_arrays enabled_world 2)"
    and h6: "(nat (sint (10 :: c_int)) + 7) div 8 \<le> length (open_arrays enabled_world 3)"
    by (simp_all add: enabled_world_arrays)
  have h7: "open_arrays enabled_world 3 = [0xA5, 0x03]"
    by (rule enabled_world_arrays)
  have h8: "bit (open_arrays enabled_world 3 ! (0 div 8)) (0 mod 8)"
    by (simp add: enabled_world_arrays)
  have run: "djtg_put_tms_tdi_bits loopback 1 2 3 3 10 False enabled_world =
       Some (TRUE, enabled_world
         \<lparr>open_arrays := (open_arrays enabled_world)(3 := [0, 0]),
          sv_calls :=
            [Sv_jtag_step True False False, Sv_jtag_step False False False,
             Sv_jtag_step False False False, Sv_jtag_step False False False,
             Sv_jtag_step False False False, Sv_jtag_step False False False,
             Sv_jtag_step False False False, Sv_jtag_step True False False,
             Sv_jtag_step False False False, Sv_jtag_step True False True]\<rparr>)"
    by (simp add: djtg_put_tms_tdi_bits_def enabled_world_entry enabled_world_arrays
        simulate_timeout_def word_sless_alt JtagDevice_ctor_def signed_divide_int_def c_add_def
        c_div_def upt_rec sv_jtag_step_eq loopback_def bit_at_iff Let_def)
  have claimed: "spec_put_calls [0x81, 0x02] [0xA5, 0x03] 10 =
      [(True, True, False), (False, False, False), (False, True, False), (False, False, False),
       (False, False, False), (False, True, False), (False, False, False), (True, True, False),
       (False, True, False), (True, True, True)]"
    by (simp add: spec_put_calls_def upt_rec)
  have differ: "[Sv_jtag_step True False False, Sv_jtag_step False False False,
       Sv_jtag_step False False False, Sv_jtag_step False False False,
       Sv_jtag_step False False False, Sv_jtag_step False False False,
       Sv_jtag_step False False False, Sv_jtag_step True False False,
       Sv_jtag_step False False False, Sv_jtag_step True False True]
      \<noteq> sv_calls enabled_world @ map step_call
          (spec_put_calls (open_arrays enabled_world 2) (open_arrays enabled_world 3)
             (nat (sint (10 :: c_int))))"
    by (simp add: enabled_world_arrays claimed step_call_triple)
  from h1 h2 h3 h4 h5 h6 h7 h8 run differ show ?thesis
    by (intro conjI)
qed

section \<open>MSB-first shifting\<close>

lemma world_calls_eqI:
  fixes w w' :: "'o world"
  assumes "device_registry w' = device_registry w" and "open_arrays w' = open_arrays w"
    and "sv_calls w' = calls" and "sv_state w' = s"
  shows "w' = w\<lparr>sv_calls := calls, sv_state := s\<rparr>"
  using assms by (cases w, cases w') simp

lemma msb_first_loop_run:
  assumes "\<forall>i\<in>set is. nat (sint bit_count - 1 - int i) < 32"
  shows "\<exists>w'. msb_first_loop tb data bit_count is result w =
       Some (fold (\<lambda>(i, b) r. if b then r OR push_bit (nat (sint bit_count - 1 - int i)) 1 else r)
               (zip is (fst (sv_run tb
                  (map (\<lambda>i. (int i = sint bit_count - 1,
                              bit data (nat (sint bit_count - 1 - int i)),
                              int i = sint bit_count - 1)) is) (sv_state w))))
               result, w')
     \<and> device_registry w' = device_registry w
     \<and> open_arrays w' = open_arrays w
     \<and> sv_calls w' = sv_calls w @ map step_call
            (map (\<lambda>i. (int i = sint bit_count - 1,
                        bit data (nat (sint bit_count - 1 - int i)),
                        int i = sint bit_count - 1)) is)
     \<and> sv_state w' = snd (sv_run tb
            (map (\<lambda>i. (int i = sint bit_count - 1,
                        bit data (nat (sint bit_count - 1 - int i)),
                        int i = sint bit_count - 1)) is) (sv_state w))"
  using assms
proof (induction "is" arbitrary: result w)
  case Nil
  then show ?case by simp
next
  case (Cons i "is")
  let ?shift = "nat (sint bit_count - 1 - int i)"
  let ?last = "int i = sint bit_count - 1"
  let ?tdi = "bit data ?shift"
  let ?tdo = "fst (jtag_step tb ?last ?tdi ?last (sv_state w))"
  let ?w1 = "w\<lparr>sv_calls := sv_calls w @ [Sv_jtag_step ?last ?tdi ?last],
               sv_state := snd (jtag_step tb ?last ?tdi ?last (sv_state w))\<rparr>"
  let ?r1 = "if ?tdo then result OR push_bit ?shift 1 else result"
  have shift: "?shift < 32"
    using Cons.prems by simp
  have bit_val: "(drop_bit ?shift data AND 1 \<noteq> 0) = ?tdi"
    by (simp add: bit_iff_odd_drop_bit and_one_eq mod_2_eq_odd)
  have step: "msb_first_loop tb data bit_count (i # is) result w =
      msb_first_loop tb data bit_count is ?r1 ?w1"
    using shift unfolding msb_first_loop.simps Let_def bit_val
    by (simp add: sv_jtag_step_eq)
  have pre: "\<forall>i\<in>set is. nat (sint bit_count - 1 - int i) < 32"
    using Cons.prems by simp
  from Cons.IH [OF pre, of ?r1 ?w1] obtain w' where
    run: "msb_first_loop tb data bit_count is ?r1 ?w1 =
       Some (fold (\<lambda>(i, b) r. if b then r OR push_bit (nat (sint bit_count - 1 - int i)) 1 else r)
               (zip is (fst (sv_run tb
                  (map (\<lambda>i. (int i = sint bit_count - 1,
                              bit data (nat (sint bit_count - 1 - int i)),
                              int i = sint bit_count - 1)) is) (sv_state ?w1))))
               ?r1, w')"
    and reg: "device_registry w' = device_registry ?w1"
    and arr: "open_arrays w' = open_arrays ?w1"
    and calls: "sv_calls w' = sv_calls ?w1 @ map step_call
            (map (\<lambda>i. (int i = sint bit_count - 1,
                        bit data (nat (sint bit_count - 1 - int i)),
                        int i = sint bit_count - 1)) is)"
    and state: "sv_state w' = snd (sv_run tb
            (map (\<lambda>i. (int i = sint bit_count - 1,
                        bit data (nat (sint bit_count - 1 - int i)),
                        int i = sint bit_count - 1)) is) (sv_state ?w1))"
    by blast
  have "msb_first_loop tb data bit_count (i # is) result w =
       Some (fold (\<lambda>(i, b) r. if b then r OR push_bit (nat (sint bit_count - 1 - int i)) 1 else r)
               (zip (i # is) (fst (sv_run tb
                  (map (\<lambda>i. (int i = sint bit_count - 1,
                              bit data (nat (sint bit_count - 1 - int i)),
                              int i = sint bit_count - 1)) (i # is)) (sv_state w))))
               result, w')"
    unfolding step run by (simp add: sv_run_Cons del: sv_run.simps)
  moreover have "device_registry w' = device_registry w"
    using reg by simp
  moreover have "open_arrays w' = open_arrays w"
    using arr by simp
  moreover have "sv_calls w' = sv_calls w @ map step_call
            (map (\<lambda>i. (int i = sint bit_count - 1,
                        bit data (nat (sint bit_count - 1 - int i)),
                        int i = sint bit_count - 1)) (i # is))"
    unfolding calls by (simp add: step_call_triple)
  moreover have "sv_state w' = snd (sv_run tb
            (map (\<lambda>i. (int i = sint bit_count - 1,
                        bit data (nat (sint bit_count - 1 - int i)),
                        int i = sint bit_count - 1)) (i # is)) (sv_state w))"
    unfolding state by (simp add: sv_run_Cons del: sv_run.simps)
  ultimately show ?case by blast
qed

lemma bit_fold_or_bits:
  fixes result :: uint32_t
  shows "bit (fold (\<lambda>(i, b) r. if b then r OR push_bit (sh i) 1 else r) ps result) p =
     (bit result p \<or> (p < 32 \<and> (\<exists>(i, b)\<in>set ps. b \<and> sh i = p)))"
proof (induction ps arbitrary: result)
  case Nil
  show ?case by simp
next
  case (Cons a ps)
  obtain i b where a: "a = (i, b)" by (cases a)
  show ?case
    unfolding a by (auto simp add: Cons.IH bit_or_iff bit_exp_iff)
qed

lemma msb_calls_eq:
  "map (\<lambda>i. (int i = sint bit_count - 1, bit data (nat (sint bit_count - 1 - int i)),
             int i = sint bit_count - 1)) [0..<nat (sint bit_count)]
     = spec_msb_calls data (nat (sint bit_count))"
  unfolding spec_msb_calls_def
proof (rule map_cong)
  fix i
  assume "i \<in> set [0..<nat (sint bit_count)]"
  then have i: "i < nat (sint bit_count)" by simp
  then have "nat (sint bit_count - 1 - int i) = nat (sint bit_count) - 1 - i"
    by linarith
  moreover have "(int i = sint bit_count - 1) = (Suc i = nat (sint bit_count))"
    using i by linarith
  ultimately show "(int i = sint bit_count - 1, bit data (nat (sint bit_count - 1 - int i)),
             int i = sint bit_count - 1)
      = (Suc i = nat (sint bit_count), bit data (nat (sint bit_count) - 1 - i),
         Suc i = nat (sint bit_count))"
    by simp
qed simp

lemma fold_or_bits_upt:
  fixes tdos :: "bool list"
  assumes "length tdos = n" and "n \<le> 32"
  shows "fold (\<lambda>(i, b) r. if b then r OR push_bit (n - 1 - i) 1 else r) (zip [0..<n] tdos)
           (0 :: uint32_t)
     = horner_sum of_bool 2 (rev tdos)"
proof (rule bit_word_eqI)
  fix p
  assume "p < LENGTH(32)"
  then have p: "p < 32" by simp
  have "(\<exists>(i, b)\<in>set (zip [0..<n] tdos). b \<and> n - 1 - i = p) = (p < n \<and> tdos ! (n - 1 - p))"
  proof
    assume "\<exists>(i, b)\<in>set (zip [0..<n] tdos). b \<and> n - 1 - i = p"
    then obtain i where "i < n" and "tdos ! i" and "n - 1 - i = p"
      using assms(1) by (auto simp add: set_zip)
    moreover from this have "n - 1 - p = i" by linarith
    ultimately show "p < n \<and> tdos ! (n - 1 - p)" by auto
  next
    assume r: "p < n \<and> tdos ! (n - 1 - p)"
    then have "(n - 1 - p, True) \<in> set (zip [0..<n] tdos)"
      using assms(1) by (auto simp add: set_zip intro!: exI [of _ "n - 1 - p"])
    moreover have "n - 1 - (n - 1 - p) = p"
      using r by linarith
    ultimately show "\<exists>(i, b)\<in>set (zip [0..<n] tdos). b \<and> n - 1 - i = p"
      by (intro bexI [of _ "(n - 1 - p, True)"]) simp_all
  qed
  moreover have "p < n \<Longrightarrow> rev tdos ! p = tdos ! (n - 1 - p)"
    using assms(1) by (simp add: rev_nth)
  ultimately show "bit (fold (\<lambda>(i, b) r. if b then r OR push_bit (n - 1 - i) 1 else r)
        (zip [0..<n] tdos) (0 :: uint32_t)) p
      = bit (horner_sum of_bool 2 (rev tdos) :: uint32_t) p"
    using p assms
    by (simp add: bit_fold_or_bits [of "\<lambda>i. n - 1 - i"] bit_horner_sum_bit_word_iff) blast
qed

lemma fold_shift_cong:
  "fold (\<lambda>(i, b) r. if b then r OR push_bit (nat (sint bit_count - 1 - int i)) 1 else r)
       (zip [0..<nat (sint bit_count)] tdos) (result :: uint32_t)
   = fold (\<lambda>(i, b) r. if b then r OR push_bit (nat (sint bit_count) - 1 - i) 1 else r)
       (zip [0..<nat (sint bit_count)] tdos) result"
proof (rule fold_cong)
  fix x
  assume "x \<in> set (zip [0..<nat (sint bit_count)] tdos)"
  then obtain m where "[0..<nat (sint bit_count)] ! m = fst x"
    and "m < length [0..<nat (sint bit_count)]"
    by (auto simp add: in_set_zip)
  then have "fst x < nat (sint bit_count)"
    by simp
  then have "nat (sint bit_count - 1 - int (fst x)) = nat (sint bit_count) - 1 - fst x"
    by linarith
  then show "(case x of (i, b) \<Rightarrow> \<lambda>r. if b then r OR push_bit (nat (sint bit_count - 1 - int i)) 1 else r)
      = (case x of (i, b) \<Rightarrow> \<lambda>r. if b then r OR push_bit (nat (sint bit_count) - 1 - i) 1 else r)"
    by (cases x) (simp cong: if_cong)
qed simp_all

lemma msb_first_loop_result:
  fixes tb :: "'o sv_testbench" and w :: "'o world" and bit_count :: c_int and data :: uint32_t
  defines "n \<equiv> nat (sint bit_count)"
  defines "calls \<equiv> spec_msb_calls data n"
  defines "tdos \<equiv> fst (sv_run tb calls (sv_state w))"
  assumes small: "sint bit_count \<le> 32"
  shows "shift_data_register_msb_first tb hif data bit_count w =
       Some (horner_sum of_bool 2 (rev tdos),
             w\<lparr>sv_calls := sv_calls w @ map step_call calls,
               sv_state := snd (sv_run tb calls (sv_state w))\<rparr>)"
proof -
  have n32: "n \<le> 32"
    using small by (simp add: n_def)
  have len_tdos: "length tdos = n"
    by (simp add: tdos_def calls_def spec_msb_calls_def length_sv_run)
  have pre: "\<forall>i\<in>set [0..<n]. nat (sint bit_count - 1 - int i) < 32"
    using small by auto
  have cs: "map (\<lambda>i. (int i = sint bit_count - 1, bit data (nat (sint bit_count - 1 - int i)),
             int i = sint bit_count - 1)) [0..<n] = calls"
    unfolding n_def calls_def by (rule msb_calls_eq)
  have "\<exists>w'. msb_first_loop tb data bit_count [0..<n] 0 w =
       Some (fold (\<lambda>(i, b) r. if b then r OR push_bit (nat (sint bit_count - 1 - int i)) 1 else r)
               (zip [0..<n] tdos) 0, w')
     \<and> device_registry w' = device_registry w
     \<and> open_arrays w' = open_arrays w
     \<and> sv_calls w' = sv_calls w @ map step_call calls
     \<and> sv_state w' = snd (sv_run tb calls (sv_state w))"
    using msb_first_loop_run [OF pre, of tb data 0 w] unfolding cs tdos_def .
  then obtain w' where
    run: "msb_first_loop tb data bit_count [0..<n] 0 w =
       Some (fold (\<lambda>(i, b) r. if b then r OR push_bit (nat (sint bit_count - 1 - int i)) 1 else r)
               (zip [0..<n] tdos) 0, w')"
    and reg: "device_registry w' = device_registry w"
    and arr: "open_arrays w' = open_arrays w"
    and cls: "sv_calls w' = sv_calls w @ map step_call calls"
    and st: "sv_state w' = snd (sv_run tb calls (sv_state w))"
    by blast
  have w': "w' = w\<lparr>sv_calls := sv_calls w @ map step_call calls,
               sv_state := snd (sv_run tb calls (sv_state w))\<rparr>"
    using reg arr cls st by (rule world_calls_eqI)
  have "fold (\<lambda>(i, b) r. if b then r OR push_bit (nat (sint bit_count - 1 - int i)) 1 else r)
               (zip [0..<n] tdos) (0 :: uint32_t)
      = fold (\<lambda>(i, b) r. if b then r OR push_bit (n - 1 - i) 1 else r) (zip [0..<n] tdos) 0"
    unfolding n_def by (rule fold_shift_cong)
  also have "\<dots> = horner_sum of_bool 2 (rev tdos)"
    by (rule fold_or_bits_upt [OF len_tdos n32])
  finally have "fold (\<lambda>(i, b) r.
        if b then r OR push_bit (nat (sint bit_count - 1 - int i)) 1 else r)
      (zip [0..<n] tdos) (0 :: uint32_t) = horner_sum of_bool 2 (rev tdos)" .
  with run w' show ?thesis
    by (simp add: shift_data_register_msb_first_def n_def)
qed

lemma loopback_msb_example:
  "shift_data_register_msb_first loopback hif 0xA 4 w =
     Some (0xA, w\<lparr>sv_calls := sv_calls w @
        [Sv_jtag_step False True False, Sv_jtag_step False False False,
         Sv_jtag_step False True False, Sv_jtag_step True False True]\<rparr>)"
  by (simp add: shift_data_register_msb_first_def upt_rec sv_jtag_step_eq loopback_def Let_def)

text \<open>
  Claim C9. For a bit count \<open>n\<close> of at most 32, \<open>shift_data_register_msb_first\<close> issues
  \<open>n\<close> calls of \<open>sv_jtag_step\<close>; call \<open>i\<close> drives bit \<open>n - 1 - i\<close> of \<open>data\<close> on TDI,
  with TMS and \<open>is_last\<close> set on the last call only. The result has the TDO of call \<open>i\<close>
  in bit \<open>n - 1 - i\<close> and zero from bit \<open>n\<close> on: it is the TDO answers read as a binary
  numeral, first answer first. Against the loopback test bench, \<open>0xA\<close> shifted with 4 bits
  returns \<open>0xA\<close>, and the TDI seen by the test bench is 1, 0, 1, 0.
\<close>

theorem msb_first_shift:
  fixes tb :: "'o sv_testbench" and w :: "'o world" and bit_count :: c_int and data :: uint32_t
    and lw :: "unit world"
  defines "n \<equiv> nat (sint bit_count)"
  defines "calls \<equiv> spec_msb_calls data n"
  defines "tdos \<equiv> fst (sv_run tb calls (sv_state w))"
  assumes small: "sint bit_count \<le> 32"
  shows
    "shift_data_register_msb_first tb hif data bit_count w =
       Some (horner_sum of_bool 2 (rev tdos),
             w\<lparr>sv_calls := sv_calls w @ map step_call calls,
               sv_state := snd (sv_run tb calls (sv_state w))\<rparr>)
     \<and> length calls = n
     \<and> (\<forall>i<n. calls ! i = (i = n - 1, bit data (n - 1 - i), i = n - 1))
     \<and> length tdos = n
     \<and> (\<forall>i<n. bit (horner_sum of_bool 2 (rev tdos) :: uint32_t) (n - 1 - i) = tdos ! i)
     \<and> (\<forall>p\<ge>n. \<not> bit (horner_sum of_bool 2 (rev tdos) :: uint32_t) p)
     \<and> shift_data_register_msb_first loopback lhif 0xA 4 lw =
         Some (0xA, lw\<lparr>sv_calls := sv_calls lw @
            [Sv_jtag_step False True False, Sv_jtag_step False False False,
             Sv_jtag_step False True False, Sv_jtag_step True False True]\<rparr>)"
proof -
  have len_calls: "length calls = n"
    by (simp add: calls_def spec_msb_calls_def)
  have len_tdos: "length tdos = n"
    by (simp add: tdos_def length_sv_run len_calls)
  have nth_calls: "\<forall>i<n. calls ! i = (i = n - 1, bit data (n - 1 - i), i = n - 1)"
    by (auto simp add: calls_def spec_msb_calls_def)
  have n32: "n \<le> 32"
    using small by (simp add: n_def)
  have high: "\<forall>i<n. bit (horner_sum of_bool 2 (rev tdos) :: uint32_t) (n - 1 - i) = tdos ! i"
  proof (intro allI impI)
    fix i
    assume i: "i < n"
    then have "n - 1 - (n - 1 - i) = i" by linarith
    with i n32 len_tdos
    show "bit (horner_sum of_bool 2 (rev tdos) :: uint32_t) (n - 1 - i) = tdos ! i"
      by (simp add: bit_horner_sum_bit_word_iff rev_nth)
  qed
  have low: "\<forall>p\<ge>n. \<not> bit (horner_sum of_bool 2 (rev tdos) :: uint32_t) p"
    using len_tdos by (simp add: bit_horner_sum_bit_word_iff)
  from msb_first_loop_result [OF small, of tb hif data w] loopback_msb_example [of lhif lw]
    len_calls nth_calls len_tdos high low
  show ?thesis
    unfolding n_def calls_def tdos_def by simp
qed

theorem msb_first_shift_witness:
  "sint (3 :: c_int) \<le> 32
   \<and> shift_data_register_msb_first loopback 1 0x6 3 example_world =
       Some (0x6, example_world\<lparr>sv_calls :=
          [Sv_jtag_step False True False, Sv_jtag_step False True False,
           Sv_jtag_step True False True]\<rparr>)
   \<and> shift_data_register_msb_first loopback 1 0xA 4 example_world =
       Some (0xA, example_world\<lparr>sv_calls :=
          [Sv_jtag_step False True False, Sv_jtag_step False False False,
           Sv_jtag_step False True False, Sv_jtag_step True False True]\<rparr>)"
proof -
  have h: "sint (3 :: c_int) \<le> 32"
    by simp
  have calls: "spec_msb_calls 0x6 3 = [(False, True, False), (False, True, False), (True, False, True)]"
    by (simp add: spec_msb_calls_def upt_rec)
  have empty: "sv_calls example_world = []" "sv_state example_world = ()"
    by (simp_all add: example_world_def)
  have tdos: "sv_run loopback [(False, True, False), (False, True, False), (True, False, True)] ()
      = ([True, True, False], ())"
    by (simp add: loopback_def)
  note r = msb_first_shift [OF h, of loopback 1 "0x6" example_world 1 example_world]
  from r [THEN conjunct1]
  have a: "shift_data_register_msb_first loopback 1 0x6 3 example_world =
       Some (0x6, example_world\<lparr>sv_calls :=
          [Sv_jtag_step False True False, Sv_jtag_step False True False,
           Sv_jtag_step True False True]\<rparr>)"
    by (simp add: calls empty tdos step_call_triple del: sv_run.simps)
  from r have b: "shift_data_register_msb_first loopback 1 0xA 4 example_world =
       Some (0xA, example_world\<lparr>sv_calls :=
          [Sv_jtag_step False True False, Sv_jtag_step False False False,
           Sv_jtag_step False True False, Sv_jtag_step True False True]\<rparr>)"
    by (simp add: empty)
  from h a b show ?thesis by (intro conjI)
qed

end
